theory Spec2Isabelle
  imports Main "HOL-Library.Word"
begin

unbundle bit_operations_syntax

section \<open>aniniscale: dominant-colour downscaling (src/main.cpp)\<close>

text \<open>
  The program replaces every \<open>x_factor \<times> y_factor\<close> tile of an image by one pixel. The
  image is cut into sections, every section is handed to \<open>work\<close> as one task, and the
  per-section buffers are pasted into the output image.

  Conventions of the embedding.
  \<^item> A band value is an \<open>unsigned char\<close> (\<open>8 word\<close>); a colour key, \<open>dominant\<close> and every
    \<open>unsigned int\<close> of the section planner in \<open>main\<close> is a \<open>32 word\<close>, so \<open>+\<close>, \<open>-\<close>
    and \<open>*\<close> wrap as the machine does. The \<open>int\<close> factors share that type; the one
    signed operation on them (\<open>x_factor < 1\<close>) is the signed comparison \<open><s\<close>.
  \<^item> Inside \<open>work\<close> the tile size, the loop indices, the buffer offsets and the vote
    counts are \<open>nat\<close>. An index stays below its loop bound and a vote count never
    exceeds the number of pixels scanned so far, so neither wraps as long as the tile
    size \<open>x_factor * y_factor\<close> and the length of the pixel buffer fit 32 bits, as
    they do for a tile whose pixel data is held in memory.
  \<^item> Reports to \<open>std::cout\<close> and the timing functions print only; they are not modelled.
\<close>

type_synonym u8 = "8 word"
type_synonym u32 = "32 word"

datatype failure =
    DivisionByZero  \<comment> \<open>an unsigned division whose divisor is 0\<close>
  | VipsError       \<comment> \<open>an exception thrown by the image library\<close>
  | NoReturn        \<comment> \<open>a loop that never ends\<close>

text \<open>A step that has failed ends the computation; otherwise the next step runs.\<close>

definition and_then :: "failure + 'a \<Rightarrow> ('a \<Rightarrow> failure + 'b) \<Rightarrow> failure + 'b" where
  "and_then r f = (case r of Inl e \<Rightarrow> Inl e | Inr v \<Rightarrow> f v)"

subsection \<open>Images\<close>

text \<open>
  A \<open>VImage\<close> of 8-bit samples: \<open>img_data\<close> holds \<open>img_width * img_height * img_bands\<close>
  bytes, row by row, the bands of a pixel next to each other.
\<close>

record image =
  img_width :: nat
  img_height :: nat
  img_bands :: nat
  img_data :: "u8 list"

definition image_ok :: "image \<Rightarrow> bool" where
  "image_ok img \<longleftrightarrow>
     length (img_data img) = img_width img * img_height img * img_bands img"

text \<open>
  Modelled from the spec: \<open>VImage::extract_area\<close> belongs to the image library, whose
  code is not part of the repository. Section 6 of the spec (\<open>ExtractRegion\<close>) describes
  it as returning a contiguous copy of a rectangular sub-region's pixel bytes,
  band-interleaved. A region that is empty or leaves the image is refused with an
  exception.
\<close>

definition extract_area :: "image \<Rightarrow> nat \<Rightarrow> nat \<Rightarrow> nat \<Rightarrow> nat \<Rightarrow> failure + image" where
  "extract_area img x0 y0 w h =
     (if w = 0 \<or> h = 0 \<or> img_width img < x0 + w \<or> img_height img < y0 + h
      then Inl VipsError
      else Inr \<lparr> img_width = w, img_height = h, img_bands = img_bands img,
                 img_data = concat (map (\<lambda>r. take (w * img_bands img)
                     (drop (((y0 + r) * img_width img + x0) * img_bands img) (img_data img)))
                   [0..<h]) \<rparr>)"

subsection \<open>The reducer: one tile (\<open>work\<close>, lines 165 to 201)\<close>

text \<open>
  Lines 174 to 180: the bands of pixel \<open>i\<close> are packed into one key, the first band in
  the most significant position. A shift by 32 or more (more than four bands) is
  undefined in the source; here it yields 0.
\<close>

definition pack_color :: "nat \<Rightarrow> u8 list \<Rightarrow> nat \<Rightarrow> u32" where
  "pack_color bandCount pixels i =
     fold (\<lambda>b color. color OR push_bit ((bandCount - 1 - b) * 8) (ucast (pixels ! (i * bandCount + b))))
       [0..<bandCount] 0"

text \<open>
  The vote state of one tile: \<open>colors\<close> is the \<open>std::map\<close> from key to count, whose
  \<open>operator[]\<close> creates an absent key with count 0, so it is a total function that is 0
  where nothing was counted.
\<close>

record tally =
  colors :: "u32 \<Rightarrow> nat"
  dominant :: u32
  domCount :: nat

definition tally0 :: tally where
  "tally0 = \<lparr> colors = (\<lambda>_. 0), dominant = 0, domCount = 0 \<rparr>"

text \<open>
  Lines 172 to 195, the loop over the pixels of a tile. The result is the value of \<open>i\<close>
  when the loop is left together with the vote state: after \<open>break\<close> the index is
  that of the pixel scanned last, otherwise it is the tile size (\<open>size\<close> in the source, \<open>tsize\<close> here).
\<close>

function tile_loop :: "nat \<Rightarrow> u8 list \<Rightarrow> nat \<Rightarrow> nat \<Rightarrow> nat \<Rightarrow> tally \<Rightarrow> nat \<times> tally" where
  "tile_loop bandCount pixels tsize win i st =
     (if i < tsize then
        let color = pack_color bandCount pixels i;
            cs = (colors st)(color := colors st color + 1)
        in if domCount st < cs color then
             let st' = \<lparr> colors = cs, dominant = color, domCount = cs color \<rparr>
             in if win \<le> domCount st' then (i, st')
                else tile_loop bandCount pixels tsize win (i + 1) st'
           else tile_loop bandCount pixels tsize win (i + 1) (st\<lparr> colors := cs \<rparr>)
      else (i, st))"
  by pat_completeness auto
termination
  by (relation "measure (\<lambda>(bandCount, pixels, tsize, win, i, st). tsize - i)") auto

declare tile_loop.simps [simp del]

text \<open>Lines 149 to 152 and 167 to 195: the dominant key of a tile of \<open>tsize\<close> pixels (the source's \<open>size\<close>).\<close>

definition scan_tile :: "nat \<Rightarrow> nat \<Rightarrow> u8 list \<Rightarrow> nat \<times> tally" where
  "scan_tile bandCount tsize pixels = tile_loop bandCount pixels tsize (tsize div 2) 0 tally0"

definition dominant_color :: "nat \<Rightarrow> nat \<Rightarrow> u8 list \<Rightarrow> u32" where
  "dominant_color bandCount tsize pixels = dominant (snd (scan_tile bandCount tsize pixels))"

text \<open>
  Lines 198 to 201: the key is unpacked into the output buffer, band by band, from
  offset \<open>base\<close>. A write past the end of \<open>out\<close> is undefined in the source;
  \<open>list_update\<close> leaves the buffer as it is there, and the theorems that read painted
  bytes are about offsets inside the buffer.
\<close>

definition paint :: "nat \<Rightarrow> nat \<Rightarrow> u32 \<Rightarrow> u8 list \<Rightarrow> u8 list" where
  "paint bandCount base key out =
     fold (\<lambda>b out. out[base + b := ucast (drop_bit ((bandCount - 1 - b) * 8) key AND 0xFF)])
       [0..<bandCount] out"

subsection \<open>The reducer: one section (\<open>work\<close>, lines 138 to 204)\<close>

text \<open>A \<open>for\<close> loop over \<open>xs\<close> whose body may fail.\<close>

fun for_each :: "('a \<Rightarrow> 's \<Rightarrow> failure + 's) \<Rightarrow> 'a list \<Rightarrow> 's \<Rightarrow> failure + 's" where
  "for_each f [] s = Inr s"
| "for_each f (x # xs) s = and_then (f x s) (for_each f xs)"

text \<open>The body of the two loops over the tiles, lines 159 to 201.\<close>

definition work_tile ::
  "nat \<Rightarrow> nat \<Rightarrow> nat \<Rightarrow> image \<Rightarrow> nat \<Rightarrow> nat \<Rightarrow> nat \<Rightarrow> u8 list \<Rightarrow> failure + u8 list" where
  "work_tile x_factor y_factor bandCount img x_tiles x y out =
     and_then (extract_area img (x * x_factor) (y * y_factor) x_factor y_factor) (\<lambda>area.
       Inr (paint bandCount ((y * x_tiles + x) * bandCount)
              (dominant_color bandCount (x_factor * y_factor) (img_data area)) out))"

text \<open>
  \<open>work\<close> reads the globals \<open>x_factor\<close>, \<open>y_factor\<close> and \<open>bandCount\<close>; they are
  parameters here. A factor of 0 makes line 145 divide by zero.
\<close>

definition work :: "nat \<Rightarrow> nat \<Rightarrow> nat \<Rightarrow> image \<Rightarrow> u8 list \<Rightarrow> failure + u8 list" where
  "work x_factor y_factor bandCount img out =
     (if x_factor = 0 \<or> y_factor = 0 then Inl DivisionByZero
      else
        let x_tiles = img_width img div x_factor;
            y_tiles = img_height img div y_factor
        in for_each (\<lambda>x. for_each (work_tile x_factor y_factor bandCount img x_tiles x) [0..<y_tiles])
             [0..<x_tiles] out)"


subsection \<open>The votes without the early exit\<close>

text \<open>
  Lines 183 to 189 alone: one vote for \<open>color\<close>, without the \<open>break\<close>. The theorems
  below describe the state of \<open>tile_loop\<close> as the votes of the pixels it has scanned.
\<close>

definition vote :: "tally \<Rightarrow> u32 \<Rightarrow> tally" where
  "vote st color =
     (let cs = (colors st)(color := colors st color + 1)
      in if domCount st < cs color
         then \<lparr> colors = cs, dominant = color, domCount = cs color \<rparr>
         else st\<lparr> colors := cs \<rparr>)"

text \<open>The keys of the first \<open>m\<close> pixels of a tile, in scan order, and their votes.\<close>

definition keys :: "nat \<Rightarrow> u8 list \<Rightarrow> nat \<Rightarrow> u32 list" where
  "keys bandCount pixels m = map (pack_color bandCount pixels) [0..<m]"

definition votes :: "nat \<Rightarrow> u8 list \<Rightarrow> nat \<Rightarrow> tally" where
  "votes bandCount pixels m = foldl vote tally0 (keys bandCount pixels m)"

subsection \<open>The section planner (\<open>main\<close>, lines 244 to 299)\<close>

text \<open>
  Every \<open>/\<close> of the planner is an unsigned 32-bit division; a zero divisor stops the
  program.
\<close>

definition udiv :: "u32 \<Rightarrow> u32 \<Rightarrow> failure + u32" where
  "udiv a b = (if b = 0 then Inl DivisionByZero else Inr (a div b))"

text \<open>Lines 259 to 263.\<close>

definition make_even :: "u32 \<Rightarrow> u32" where
  "make_even workerCount =
     (if workerCount mod 2 \<noteq> 0 then workerCount + workerCount mod 2 else workerCount)"

text \<open>
  Lines 266 to 269. \<open>workerCount -= 2\<close> wraps below 0, so from an odd count with no
  tiles the loop would never end: \<open>None\<close> stands for that.
\<close>

partial_function (option) cut_workers :: "u32 \<Rightarrow> u32 \<Rightarrow> u32 \<Rightarrow> u32 option" where
  "cut_workers x_tiles y_tiles workerCount =
     (if workerCount > x_tiles \<or> workerCount > y_tiles
      then cut_workers x_tiles y_tiles (workerCount - 2)
      else Some workerCount)"

declare cut_workers.simps [code]

text \<open>Lines 257 to 275: the number of workers for \<open>H\<close> hardware threads.\<close>

definition worker_count :: "u32 \<Rightarrow> u32 \<Rightarrow> u32 \<Rightarrow> failure + u32" where
  "worker_count H x_tiles y_tiles =
     (case cut_workers x_tiles y_tiles (make_even H) of
        None \<Rightarrow> Inl NoReturn
      | Some workerCount \<Rightarrow> Inr (if 0 = workerCount then 1 else workerCount))"

text \<open>
  Lines 281 to 284 and 286 to 289, with \<open>sect\<close> for \<open>x_section\<close> or \<open>y_section\<close>.
\<close>

function shrink_section :: "u32 \<Rightarrow> u32 \<Rightarrow> u32" where
  "shrink_section max_sections sect =
     (if sect > max_sections then shrink_section max_sections (sect div 2) else sect)"
  by pat_completeness auto
termination
proof (relation "measure (\<lambda>(max_sections, sect). unat sect)")
  show "wf (measure (\<lambda>(max_sections :: u32, sect :: u32). unat sect))"
    by simp
next
  fix max_sections sect :: u32
  assume "max_sections < sect"
  then have "sect \<noteq> 0"
    by (auto simp: word_less_nat_alt)
  then have "0 < unat sect"
    by (simp add: unat_gt_0)
  then have "unat sect div 2 < unat sect"
    by simp
  then show "((max_sections, sect div 2), (max_sections, sect))
      \<in> measure (\<lambda>(max_sections, sect). unat sect)"
    by (simp add: unat_div)
qed

declare shrink_section.simps [simp del]

record plan =
  plan_x_tiles :: u32
  plan_y_tiles :: u32
  plan_workerCount :: u32
  plan_x_section :: u32
  plan_y_section :: u32
  plan_x_sectionSize :: u32
  plan_y_sectionSize :: u32
  plan_x_sectionCount :: u32
  plan_y_sectionCount :: u32

text \<open>
  Lines 247 to 296. \<open>x_factor * x_factor\<close> is a product of two \<open>int\<close>s, which the
  source leaves undefined when it overflows; it wraps here.
\<close>

definition planner :: "u32 \<Rightarrow> u32 \<Rightarrow> u32 \<Rightarrow> u32 \<Rightarrow> u32 \<Rightarrow> failure + plan" where
  "planner width height x_factor y_factor H =
     and_then (udiv width x_factor) (\<lambda>x_tiles.
     and_then (udiv height y_factor) (\<lambda>y_tiles.
     let max_x_sections = x_factor * x_factor;
         max_y_sections = y_factor * y_factor
     in
     and_then (worker_count H x_tiles y_tiles) (\<lambda>workerCount.
     and_then (udiv x_tiles workerCount) (\<lambda>x_section0.
     and_then (udiv y_tiles workerCount) (\<lambda>y_section0.
     let x_section = shrink_section max_x_sections x_section0;
         y_section = shrink_section max_y_sections y_section0;
         x_sectionSize = x_section * x_factor;
         y_sectionSize = y_section * y_factor
     in
     and_then (udiv width x_sectionSize) (\<lambda>x_sectionCount.
     and_then (udiv height y_sectionSize) (\<lambda>y_sectionCount.
     Inr \<lparr> plan_x_tiles = x_tiles, plan_y_tiles = y_tiles, plan_workerCount = workerCount,
           plan_x_section = x_section, plan_y_section = y_section,
           plan_x_sectionSize = x_sectionSize, plan_y_sectionSize = y_sectionSize,
           plan_x_sectionCount = x_sectionCount, plan_y_sectionCount = y_sectionCount \<rparr>)))))))"


subsection \<open>Tasks and the output image (\<open>main\<close>, lines 301 to 368)\<close>

text \<open>The section coordinates in the order of the loops at lines 308 to 330.\<close>

definition task_coords :: "plan \<Rightarrow> (u32 \<times> u32) list" where
  "task_coords p =
     concat (map (\<lambda>x_task. map (\<lambda>y_task. (of_nat x_task, of_nat y_task))
                                [0..<unat (plan_y_sectionCount p)])
                 [0..<unat (plan_x_sectionCount p)])"

text \<open>
  Lines 323 to 326: the rectangle (left, top, width, height) of the source image that
  the task of a section is given.
\<close>

definition task_area :: "plan \<Rightarrow> u32 \<times> u32 \<Rightarrow> nat \<times> nat \<times> nat \<times> nat" where
  "task_area p coords =
     (unat (fst coords * plan_x_sectionSize p), unat (snd coords * plan_y_sectionSize p),
      unat (plan_x_sectionSize p), unat (plan_y_sectionSize p))"

text \<open>Lines 317 to 330: one task per section, each with its own copy of its area.\<close>

definition create_tasks :: "image \<Rightarrow> plan \<Rightarrow> failure + ((u32 \<times> u32) \<times> image) list" where
  "create_tasks img p =
     for_each (\<lambda>coords tasks.
         case task_area p coords of (x0, y0, w, h) \<Rightarrow>
           and_then (extract_area img x0 y0 w h) (\<lambda>area. Inr (tasks @ [(coords, area)])))
       (task_coords p) []"

text \<open>
  Lines 308 to 314 and 336 to 348. Every task runs \<open>work\<close> once on its area and on
  its own zero-filled buffer of \<open>result\<close>. The workers take the tasks from the queue
  in any interleaving; a task reads its area and writes its buffer only, so the tasks
  are run here one after the other, in queue order. \<open>result\<close> is kept in the order of
  its keys, which is the order in which the tasks were created.
\<close>

definition run_tasks ::
  "u32 \<Rightarrow> u32 \<Rightarrow> nat \<Rightarrow> plan \<Rightarrow> ((u32 \<times> u32) \<times> image) list
     \<Rightarrow> failure + ((u32 \<times> u32) \<times> u8 list) list" where
  "run_tasks x_factor y_factor bandCount p tasks =
     for_each (\<lambda>task result.
         and_then (work (unat x_factor) (unat y_factor) bandCount (snd task)
                     (replicate (unat (plan_x_section p * plan_y_section p * of_nat bandCount)) 0))
           (\<lambda>buffer. Inr (result @ [(fst task, buffer)])))
       tasks []"

text \<open>
  Modelled from the spec: \<open>VImage::insert\<close> belongs to the image library. Section 6 of
  the spec (\<open>ComposeFromBlocks\<close>) describes the assembly of a full image from placed
  sub-buffers. \<open>a.insert(sub, x, y)\<close> as called at line 367 yields an image of the size
  of \<open>a\<close> in which the pixels under \<open>sub\<close>, placed with its top left corner at
  \<open>(x, y)\<close>, are those of \<open>sub\<close>.
\<close>

definition insert_image :: "image \<Rightarrow> image \<Rightarrow> nat \<Rightarrow> nat \<Rightarrow> image" where
  "insert_image a sub x y =
     a\<lparr> img_data :=
          map (\<lambda>k. let b = k mod img_bands a;
                       px = (k div img_bands a) mod img_width a;
                       py = (k div img_bands a) div img_width a
                   in if x \<le> px \<and> px < x + img_width sub \<and> y \<le> py \<and> py < y + img_height sub
                      then img_data sub ! (((py - y) * img_width sub + (px - x)) * img_bands a + b)
                      else img_data a ! k)
              [0..<length (img_data a)] \<rparr>"

text \<open>
  Lines 352 to 368: the output image of \<open>x_tiles \<times> y_tiles\<close> pixels over a zero-filled
  buffer, with the buffer of every section inserted at its place.
\<close>

definition assemble :: "nat \<Rightarrow> plan \<Rightarrow> ((u32 \<times> u32) \<times> u8 list) list \<Rightarrow> image" where
  "assemble bandCount p result =
     fold (\<lambda>r out.
         insert_image out
           \<lparr> img_width = unat (plan_x_section p), img_height = unat (plan_y_section p),
             img_bands = bandCount, img_data = snd r \<rparr>
           (unat (fst (fst r) * plan_x_section p)) (unat (snd (fst r) * plan_y_section p)))
       result
       \<lparr> img_width = unat (plan_x_tiles p), img_height = unat (plan_y_tiles p),
         img_bands = bandCount,
         img_data = replicate (unat (plan_x_tiles p * plan_y_tiles p * of_nat bandCount)) 0 \<rparr>"

text \<open>Lines 244 to 368: the path of \<open>main\<close> that scales the image.\<close>

definition scale :: "u32 \<Rightarrow> u32 \<Rightarrow> u32 \<Rightarrow> image \<Rightarrow> failure + image" where
  "scale x_factor y_factor H img =
     and_then (planner (of_nat (img_width img)) (of_nat (img_height img)) x_factor y_factor H) (\<lambda>p.
     and_then (create_tasks img p) (\<lambda>tasks.
     and_then (run_tasks x_factor y_factor (img_bands img) p tasks) (\<lambda>result.
     Inr (assemble (img_bands img) p result))))"

subsection \<open>The program (\<open>main\<close>, lines 206 to 380)\<close>

text \<open>
  The program either returns from \<open>main\<close> with an exit code or is stopped by a failure.
  What it does to files is recorded: the image it has opened and the image it has saved.
\<close>

datatype outcome = Return int | Abort failure

datatype effect = Opened string | Saved string image

text \<open>
  The surroundings of \<open>main\<close> are parameters: whether \<open>VIPS_INIT\<close> reports an error,
  the C library's \<open>atoi\<close>, the decoder \<open>VImage::new_from_file\<close> (\<open>None\<close> when it
  throws), the encoder \<open>VImage::pngsave\<close> (\<open>pngsave path img\<close> is true when the image
  is written and false when the call throws, as for a path that cannot be written),
  \<open>std::thread::hardware_concurrency()\<close> and the argument vector, whose length is
  \<open>argc\<close>. Nothing in \<open>main\<close> catches an exception of the image library: it stops the
  program.
\<close>

definition main ::
  "bool \<Rightarrow> (string \<Rightarrow> u32) \<Rightarrow> (string \<Rightarrow> image option) \<Rightarrow> (string \<Rightarrow> image \<Rightarrow> bool)
     \<Rightarrow> u32 \<Rightarrow> string list \<Rightarrow> outcome \<times> effect list" where
  "main vips_init_failed atoi new_from_file pngsave H argv =
     (if vips_init_failed then (Return (- 1), [])
      else if int (length argv) < 5 then (Return (- 1), [])
      else
        let x_factor = atoi (argv ! 1);
            y_factor = atoi (argv ! 2)
        in if x_factor <s 1 \<or> y_factor <s 1 then (Return (- 1), [])
           else (case new_from_file (argv ! 3) of
                   None \<Rightarrow> (Abort VipsError, [])
                 | Some img \<Rightarrow>
                     if x_factor = 1 \<and> y_factor = 1
                     then (if pngsave (argv ! 4) img
                           then (Return 0, [Opened (argv ! 3), Saved (argv ! 4) img])
                           else (Abort VipsError, [Opened (argv ! 3)]))
                     else (case scale x_factor y_factor H img of
                             Inl e \<Rightarrow> (Abort e, [Opened (argv ! 3)])
                           | Inr out \<Rightarrow>
                               if pngsave (argv ! 4) out
                               then (Return 0, [Opened (argv ! 3), Saved (argv ! 4) out])
                               else (Abort VipsError, [Opened (argv ! 3)]))))"


subsection \<open>The end-to-end scenario of the spec\<close>

text \<open>The 4 by 4 image of one band with the rows 1 1 2 2, 1 1 2 2, 3 3 4 4, 3 3 4 4.\<close>

definition scenario_image :: image where
  "scenario_image =
     \<lparr> img_width = 4, img_height = 4, img_bands = 1,
       img_data = [1, 1, 2, 2,  1, 1, 2, 2,  3, 3, 4, 4,  3, 3, 4, 4] \<rparr>"

text \<open>
  An image of 10 by 1 pixels for the factors 2 and 1: five tiles in a row, of which the
  planner puts four into two sections. \<open>strip_plan\<close> and \<open>strip_output\<close> are the plan
  and the output image that the program computes for it with 4 hardware threads.
\<close>

definition strip_image :: image where
  "strip_image =
     \<lparr> img_width = 10, img_height = 1, img_bands = 1,
       img_data = [1, 1, 2, 2, 3, 3, 4, 4, 5, 5] \<rparr>"

definition strip_plan :: plan where
  "strip_plan =
     \<lparr> plan_x_tiles = 5, plan_y_tiles = 1, plan_workerCount = 1,
       plan_x_section = 2, plan_y_section = 1,
       plan_x_sectionSize = 4, plan_y_sectionSize = 1,
       plan_x_sectionCount = 2, plan_y_sectionCount = 1 \<rparr>"

definition strip_output :: image where
  "strip_output =
     \<lparr> img_width = 5, img_height = 1, img_bands = 1, img_data = [1, 2, 3, 4, 0] \<rparr>"

section \<open>Properties of the reducer\<close>

subsection \<open>The loop and the votes\<close>

lemma keys_0: "keys bc px 0 = []"
  by (simp add: keys_def)

lemma keys_Suc: "keys bc px (Suc m) = keys bc px m @ [pack_color bc px m]"
  by (simp add: keys_def)

lemma votes_0: "votes bc px 0 = tally0"
  by (simp add: votes_def keys_def)

lemma votes_Suc: "votes bc px (Suc m) = vote (votes bc px m) (pack_color bc px m)"
  by (simp add: votes_def keys_Suc)

lemma tile_loop_step:
  "i < n \<Longrightarrow> tile_loop bc px n win i st =
     (if domCount st < domCount (vote st (pack_color bc px i)) \<and> win \<le> domCount (vote st (pack_color bc px i))
      then (i, vote st (pack_color bc px i))
      else tile_loop bc px n win (Suc i) (vote st (pack_color bc px i)))"
  by (subst tile_loop.simps) (simp add: vote_def Let_def)

lemma tile_loop_done: "\<not> i < n \<Longrightarrow> tile_loop bc px n win i st = (i, st)"
  by (subst tile_loop.simps) simp

lemma domCount_vote_mono: "domCount st \<le> domCount (vote st c)"
  by (simp add: vote_def Let_def)

lemma domCount_vote_pos: "0 < domCount (vote st c)"
  by (simp add: vote_def Let_def)

lemma tile_loop_votes:
  assumes "tile_loop bc px n win i (votes bc px i) = (k, st)"
    and "i \<le> n"
    and "\<forall>j<i. domCount (votes bc px (Suc j)) < win"
  shows "k \<le> n \<and> i \<le> k \<and> st = votes bc px (min (Suc k) n)
       \<and> (k < n \<longrightarrow> win \<le> domCount st)
       \<and> (\<forall>j<k. domCount (votes bc px (Suc j)) < win)"
  using assms
proof (induction "n - i" arbitrary: i)
  case 0
  then have "i = n" by simp
  with 0 show ?case by (auto simp add: tile_loop_done)
next
  case (Suc d)
  then have lt: "i < n" by simp
  let ?v = "votes bc px (Suc i)"
  have v: "vote (votes bc px i) (pack_color bc px i) = ?v" by (simp add: votes_Suc)
  show ?case
  proof (cases "domCount (votes bc px i) < domCount ?v \<and> win \<le> domCount ?v")
    case True
    with Suc.prems lt have "k = i" "st = ?v" by (auto simp add: tile_loop_step v)
    with True lt Suc.prems show ?thesis by (auto simp add: min_def)
  next
    case False
    with Suc.prems lt have run: "tile_loop bc px n win (Suc i) ?v = (k, st)"
      by (simp add: tile_loop_step v)
    have below: "domCount ?v < win"
    proof (cases "domCount (votes bc px i) < domCount ?v")
      case True with False show ?thesis by simp
    next
      case same: False
      then have eq: "domCount ?v = domCount (votes bc px i)"
        using domCount_vote_mono [of "votes bc px i" "pack_color bc px i"] by (simp add: votes_Suc)
      show ?thesis
      proof (cases i)
        case 0
        with eq have "domCount ?v = 0" by (simp add: votes_0 tally0_def)
        moreover have "0 < domCount ?v" by (simp add: votes_Suc domCount_vote_pos)
        ultimately show ?thesis by simp
      next
        case (Suc i')
        with Suc.prems(3) eq show ?thesis by simp
      qed
    qed
    have "\<forall>j<Suc i. domCount (votes bc px (Suc j)) < win"
      using Suc.prems(3) below by (auto simp: less_Suc_eq)
    moreover have "d = n - Suc i" using Suc.hyps(2) by simp
    moreover have "Suc i \<le> n" using lt by simp
    ultimately have "k \<le> n \<and> Suc i \<le> k \<and> st = votes bc px (min (Suc k) n)
       \<and> (k < n \<longrightarrow> win \<le> domCount st)
       \<and> (\<forall>j<k. domCount (votes bc px (Suc j)) < win)"
      using Suc.hyps(1) [of "Suc i"] run by blast
    then show ?thesis by auto
  qed
qed


lemma colors_vote: "colors (vote st c) k = (if k = c then colors st c + 1 else colors st k)"
  by (simp add: vote_def Let_def)

lemma colors_votes: "colors (votes bc px m) c = count_list (keys bc px m) c"
  by (induction m) (auto simp: votes_0 tally0_def votes_Suc keys_0 keys_Suc colors_vote)

lemma keys_mono: "j \<le> m \<Longrightarrow> count_list (keys bc px j) c \<le> count_list (keys bc px m) c"
proof (induction m)
  case 0 then show ?case by simp
next
  case (Suc m)
  then show ?case by (cases "j = Suc m") (auto simp: keys_Suc)
qed

lemma dominant_vote:
  "dominant (vote st c) = (if domCount st < colors st c + 1 then c else dominant st)"
  by (simp add: vote_def Let_def)

lemma domCount_vote:
  "domCount (vote st c) = (if domCount st < colors st c + 1 then colors st c + 1 else domCount st)"
  by (simp add: vote_def Let_def)

lemma votes_max: "count_list (keys bc px m) c \<le> domCount (votes bc px m)"
proof (induction m arbitrary: c)
  case 0 then show ?case by (simp add: keys_def)
next
  case (Suc m)
  have "count_list (keys bc px m) c \<le> domCount (votes bc px m)" by (rule Suc.IH)
  moreover have "count_list (keys bc px m) (pack_color bc px m) \<le> domCount (votes bc px m)" by (rule Suc.IH)
  ultimately show ?case
    by (auto simp: votes_Suc keys_Suc domCount_vote colors_votes)
qed

lemma votes_first:
  "0 < m \<Longrightarrow> \<exists>j<m. dominant (votes bc px m) = pack_color bc px j
      \<and> count_list (keys bc px (Suc j)) (pack_color bc px j) = domCount (votes bc px m)
      \<and> (\<forall>j'<j. count_list (keys bc px (Suc j')) (pack_color bc px j') < domCount (votes bc px m))"
proof (induction m)
  case 0 then show ?case by simp
next
  case (Suc m)
  let ?c = "pack_color bc px m"
  let ?st = "votes bc px m"
  show ?case
  proof (cases "domCount ?st < colors ?st ?c + 1")
    case True
    have "\<forall>j'<m. count_list (keys bc px (Suc j')) (pack_color bc px j') < colors ?st ?c + 1"
    proof (intro allI impI)
      fix j' assume "j' < m"
      then have "count_list (keys bc px (Suc j')) (pack_color bc px j')
                   \<le> count_list (keys bc px m) (pack_color bc px j')"
        by (intro keys_mono) simp
      also have "\<dots> \<le> domCount ?st" by (rule votes_max)
      finally show "count_list (keys bc px (Suc j')) (pack_color bc px j') < colors ?st ?c + 1"
        using True by simp
    qed
    with True show ?thesis
      by (intro exI [of _ m]) (simp add: votes_Suc dominant_vote domCount_vote colors_votes keys_Suc)
  next
    case False
    then have same: "dominant (votes bc px (Suc m)) = dominant ?st"
                    "domCount (votes bc px (Suc m)) = domCount ?st"
      by (simp_all add: votes_Suc dominant_vote domCount_vote)
    have "0 < m"
    proof (rule ccontr)
      assume "\<not> 0 < m"
      then have "m = 0" by simp
      with False show False by (simp add: votes_0 tally0_def)
    qed
    from Suc.IH [OF this] obtain j where "j < m"
      "dominant ?st = pack_color bc px j"
      "count_list (keys bc px (Suc j)) (pack_color bc px j) = domCount ?st"
      "\<forall>j'<j. count_list (keys bc px (Suc j')) (pack_color bc px j') < domCount ?st"
      by blast
    then show ?thesis
      unfolding same by (intro exI [of _ j]) simp
  qed
qed

subsection \<open>Packing and unpacking a colour key\<close>

lemma bit_fold_or:
  "bit (fold (\<lambda>b (color::u32). color OR f b) bs c0) n \<longleftrightarrow> bit c0 n \<or> (\<exists>b\<in>set bs. bit (f b) n)"
  by (induction bs arbitrary: c0) (auto simp: bit_or_iff)

lemma bit_pack_color:
  "bit (pack_color bc px i) n \<longleftrightarrow>
     (\<exists>b<bc. n < 32 \<and> (bc - 1 - b) * 8 \<le> n \<and> bit (px ! (i * bc + b)) (n - (bc - 1 - b) * 8))"
  by (auto simp: pack_color_def bit_fold_or bit_push_bit_iff bit_ucast_iff)

lemma unpack_pack:
  assumes "bc \<le> 4" "b < bc"
  shows "ucast (drop_bit ((bc - 1 - b) * 8) (pack_color bc px i) AND 0xFF) = px ! (i * bc + b)"
proof (rule bit_word_eqI)
  fix m assume m: "m < LENGTH(8)"
  then have m8: "m < 8" by simp
  have mask: "(0xFF :: u32) = mask 8" by (simp add: mask_eq_exp_minus_1)
  have "bit (ucast (drop_bit ((bc - 1 - b) * 8) (pack_color bc px i) AND 0xFF) :: u8) m
      \<longleftrightarrow> bit (pack_color bc px i) ((bc - 1 - b) * 8 + m)"
    using m8 by (auto simp: mask bit_ucast_iff bit_and_iff bit_drop_bit_eq bit_mask_iff)
  also have "\<dots> \<longleftrightarrow> bit (px ! (i * bc + b)) m"
  proof
    assume "bit (pack_color bc px i) ((bc - 1 - b) * 8 + m)"
    then obtain b' where b': "b' < bc" "(bc - 1 - b') * 8 \<le> (bc - 1 - b) * 8 + m"
      "bit (px ! (i * bc + b')) ((bc - 1 - b) * 8 + m - (bc - 1 - b') * 8)"
      by (auto simp: bit_pack_color)
    from b'(3) have "(bc - 1 - b) * 8 + m - (bc - 1 - b') * 8 < 8"
      using bit_imp_le_length [of "px ! (i * bc + b')"] by (auto dest!: bit_imp_le_length)
    with b'(1,2) m8 assms have "b' = b" by arith
    with b'(3) show "bit (px ! (i * bc + b)) m" by simp
  next
    assume "bit (px ! (i * bc + b)) m"
    moreover have "(bc - 1 - b) * 8 + m < 32" using assms m8 by arith
    ultimately show "bit (pack_color bc px i) ((bc - 1 - b) * 8 + m)"
      using assms by (auto simp: bit_pack_color intro!: exI [of _ b])
  qed
  finally show "bit (ucast (drop_bit ((bc - 1 - b) * 8) (pack_color bc px i) AND 0xFF) :: u8) m
      \<longleftrightarrow> bit (px ! (i * bc + b)) m" .
qed


subsection \<open>Writing a key into the output buffer\<close>

lemma length_fold_update:
  "length (fold (\<lambda>b out. out[base + b := f b]) bs out) = length out"
  by (induction bs arbitrary: out) simp_all

lemma fold_update_other:
  "b \<notin> set bs \<Longrightarrow> fold (\<lambda>b out. out[base + b := f b]) bs out ! (base + b) = out ! (base + b)"
  by (induction bs arbitrary: out) simp_all

lemma fold_update_nth:
  "distinct bs \<Longrightarrow> b \<in> set bs \<Longrightarrow> base + b < length out
    \<Longrightarrow> fold (\<lambda>b out. out[base + b := f b]) bs out ! (base + b) = f b"
proof (induction bs arbitrary: out)
  case Nil
  then show ?case by simp
next
  case (Cons x bs)
  show ?case
  proof (cases "b = x")
    case True
    with Cons.prems show ?thesis by (simp add: fold_update_other)
  next
    case False
    with Cons.prems show ?thesis by (simp add: Cons.IH)
  qed
qed

lemma paint_nth:
  "base + bc \<le> length out \<Longrightarrow> b < bc
    \<Longrightarrow> paint bc base key out ! (base + b) = ucast (drop_bit ((bc - 1 - b) * 8) key AND 0xFF)"
  unfolding paint_def by (rule fold_update_nth) simp_all

lemma length_paint: "length (paint bc base key out) = length out"
  unfolding paint_def by (rule length_fold_update)

subsection \<open>The pixels of an extracted area\<close>

lemma nth_concat_rows:
  assumes "\<And>r. r < h \<Longrightarrow> length (f r) = L" and "r < h" and "j < L"
  shows "concat (map f [0..<h]) ! (r * L + j) = f r ! j"
  using assms
proof (induction h)
  case 0
  then show ?case by simp
next
  case (Suc h)
  have len: "length (concat (map f [0..<h])) = h * L"
    using Suc.prems(1) by (induction h) simp_all
  show ?case
  proof (cases "r < h")
    case True
    then have "r * L + j < h * L"
    proof -
      from True have "Suc r * L \<le> h * L" by (intro mult_le_mono1) simp
      with Suc.prems(3) show ?thesis by simp
    qed
    moreover have "concat (map f [0..<h]) ! (r * L + j) = f r ! j"
      using Suc.prems True by (intro Suc.IH) simp_all
    ultimately show ?thesis by (simp add: nth_append len)
  next
    case False
    with Suc.prems(2) have "r = h" by simp
    then show ?thesis by (simp add: nth_append len)
  qed
qed

lemma extract_area_nth:
  assumes ok: "image_ok img" and ex: "extract_area img x0 y0 w h = Inr area"
    and i: "i < w * h" and b: "b < img_bands img"
  shows "img_data area ! (i * img_bands img + b)
       = img_data img ! (((y0 + i div w) * img_width img + (x0 + i mod w)) * img_bands img + b)"
proof -
  let ?B = "img_bands img" and ?W = "img_width img"
  let ?row = "\<lambda>r. take (w * ?B) (drop (((y0 + r) * ?W + x0) * ?B) (img_data img))"
  from ex have inside: "0 < w" "x0 + w \<le> ?W" "y0 + h \<le> img_height img"
    and area: "img_data area = concat (map ?row [0..<h])"
    by (auto simp: extract_area_def split: if_splits)
  have r: "i div w < h"
    using i inside(1) by (simp add: less_mult_imp_div_less mult.commute)
  have c: "i mod w < w" using inside(1) by simp
  have in_row: "((y0 + r) * ?W + x0) * ?B + w * ?B \<le> length (img_data img)" if "r < h" for r
  proof -
    have "(y0 + r) * ?W + x0 + w \<le> (y0 + r) * ?W + ?W" using inside(2) by simp
    also have "\<dots> = Suc (y0 + r) * ?W" by simp
    also have "\<dots> \<le> img_height img * ?W"
      using that inside(3) by (intro mult_le_mono1) simp
    finally have "((y0 + r) * ?W + x0 + w) * ?B \<le> img_height img * ?W * ?B"
      by (rule mult_le_mono1)
    then show ?thesis using ok by (simp add: image_ok_def algebra_simps)
  qed
  have len: "length (?row r) = w * ?B" if "r < h" for r
    using in_row [OF that] by simp
  have j: "(i mod w) * ?B + b < w * ?B"
  proof -
    have "Suc (i mod w) * ?B \<le> w * ?B" using c by (intro mult_le_mono1) simp
    with b show ?thesis by simp
  qed
  have split: "i * ?B + b = (i div w) * (w * ?B) + ((i mod w) * ?B + b)"
  proof -
    have "i * ?B = (i div w * w + i mod w) * ?B" by simp
    also have "\<dots> = (i div w) * (w * ?B) + (i mod w) * ?B"
      by (simp only: add_mult_distrib mult.assoc)
    finally show ?thesis by simp
  qed
  have "img_data area ! (i * ?B + b) = ?row (i div w) ! ((i mod w) * ?B + b)"
    unfolding area split using len r j by (rule nth_concat_rows)
  also have "\<dots> = img_data img ! (((y0 + i div w) * ?W + x0) * ?B + ((i mod w) * ?B + b))"
    using j in_row [OF r] by simp
  also have "((y0 + i div w) * ?W + x0) * ?B + ((i mod w) * ?B + b)
      = ((y0 + i div w) * ?W + (x0 + i mod w)) * ?B + b"
    by (simp add: algebra_simps)
  finally show ?thesis .
qed

subsection \<open>Where the scan stops\<close>

lemma scan_tile_votes:
  assumes "scan_tile bc n px = (k, st)"
  shows "k \<le> n \<and> st = votes bc px (min (Suc k) n) \<and> (k < n \<longrightarrow> n div 2 \<le> domCount st)
       \<and> (\<forall>j<k. domCount (votes bc px (Suc j)) < n div 2)"
proof -
  have "tile_loop bc px n (n div 2) 0 (votes bc px 0) = (k, st)"
    using assms by (simp add: scan_tile_def votes_0)
  from tile_loop_votes [OF this] show ?thesis by auto
qed

lemma votes_cong:
  "(\<forall>j<m. pack_color bc px' j = pack_color bc px j) \<Longrightarrow> votes bc px' m = votes bc px m"
proof -
  assume "\<forall>j<m. pack_color bc px' j = pack_color bc px j"
  then have "keys bc px' m = keys bc px m" by (auto simp: keys_def)
  then show ?thesis by (simp add: votes_def)
qed

lemma scan_tile_prefix:
  assumes run: "scan_tile bc n px = (k, st)"
    and same: "\<forall>j<min (Suc k) n. pack_color bc px' j = pack_color bc px j"
  shows "scan_tile bc n px' = (k, st)"
proof -
  obtain k' st' where run': "scan_tile bc n px' = (k', st')" by (cases "scan_tile bc n px'")
  from scan_tile_votes [OF run] have c: "k \<le> n" "st = votes bc px (min (Suc k) n)"
      "k < n \<Longrightarrow> n div 2 \<le> domCount (votes bc px (Suc k))"
      "\<And>j. j < k \<Longrightarrow> domCount (votes bc px (Suc j)) < n div 2"
    by (auto simp: min_def)
  from scan_tile_votes [OF run'] have c': "k' \<le> n" "st' = votes bc px' (min (Suc k') n)"
      "k' < n \<Longrightarrow> n div 2 \<le> domCount (votes bc px' (Suc k'))"
      "\<And>j. j < k' \<Longrightarrow> domCount (votes bc px' (Suc j)) < n div 2"
    by (auto simp: min_def)
  have eqv: "votes bc px' m = votes bc px m" if "m \<le> min (Suc k) n" for m
    using same that by (intro votes_cong) simp
  have "k' = k"
  proof (rule ccontr)
    assume "k' \<noteq> k"
    then consider "k' < k" | "k < k'" by arith
    then show False
    proof cases
      case 1
      then have "k' < n" using c by simp
      then have "n div 2 \<le> domCount (votes bc px' (Suc k'))" using c' by (simp add: min_def)
      moreover have "votes bc px' (Suc k') = votes bc px (Suc k')" using 1 c by (intro eqv) simp
      moreover have "domCount (votes bc px (Suc k')) < n div 2" using 1 c by simp
      ultimately show False by simp
    next
      case 2
      then have kn: "k < n" using c' by simp
      then have "n div 2 \<le> domCount (votes bc px (Suc k))" using c by (simp add: min_def)
      moreover have "votes bc px' (Suc k) = votes bc px (Suc k)" using kn by (intro eqv) simp
      moreover have "domCount (votes bc px' (Suc k)) < n div 2" using 2 c' by simp
      ultimately show False by simp
    qed
  qed
  moreover have "st' = st" using c c' \<open>k' = k\<close> eqv [of "min (Suc k) n"] by simp
  ultimately show ?thesis using run' by simp
qed

lemma scan_two_votes:
  assumes "pack_color bc px 0 = A" and "pack_color bc px 1 = A" and "n div 2 = 2" and "1 < n"
  shows "scan_tile bc n px = (1, vote (vote tally0 A) A)"
    and "dominant (vote (vote tally0 A) A) = A"
proof -
  have v1: "vote tally0 A = \<lparr> colors = (\<lambda>_. 0)(A := 1), dominant = A, domCount = 1 \<rparr>"
    by (simp add: vote_def tally0_def)
  have v2: "vote (vote tally0 A) A = \<lparr> colors = (\<lambda>_. 0)(A := 2), dominant = A, domCount = 2 \<rparr>"
    unfolding v1 by (simp add: vote_def numeral_2_eq_2)
  have "tile_loop bc px n 2 0 tally0 = tile_loop bc px n 2 (Suc 0) (vote tally0 A)"
    using assms by (simp add: tile_loop_step v1)
  also have "\<dots> = (Suc 0, vote (vote tally0 A) A)"
    using assms by (simp add: tile_loop_step v2) (simp add: v1)
  finally show "scan_tile bc n px = (1, vote (vote tally0 A) A)"
    using assms by (simp add: scan_tile_def)
  show "dominant (vote (vote tally0 A) A) = A"
    by (simp add: v2)
qed

lemma tile_loop_one:
  assumes "tile_loop bc px (Suc i) win i st0 = (k, st)"
  shows "st = vote st0 (pack_color bc px i)"
  using assms by (auto simp: tile_loop_step tile_loop_done split: if_splits)

lemma scan_tile_first:
  assumes "0 < n" and run: "scan_tile bc n px = (k, st)"
  shows "(\<exists>j<min (Suc k) n. dominant st = pack_color bc px j
          \<and> count_list (keys bc px (Suc j)) (pack_color bc px j) = domCount st
          \<and> (\<forall>j'<j. count_list (keys bc px (Suc j')) (pack_color bc px j') < domCount st))
     \<and> (\<forall>c. count_list (keys bc px (min (Suc k) n)) c \<le> domCount st)"
proof -
  from scan_tile_votes [OF run] have st: "st = votes bc px (min (Suc k) n)" by blast
  from assms(1) have "0 < min (Suc k) n" by simp
  from votes_first [OF this, of bc px] votes_max [of bc px "min (Suc k) n"]
  show ?thesis unfolding st by blast
qed

text \<open>
  C3. The buffer of an extracted area holds its pixels row by row: pixel \<open>i\<close> of an area
  of width \<open>w\<close> is the pixel of the image in column \<open>x0 + i mod w\<close> and row
  \<open>y0 + i div w\<close>. The reducer scans the pixels of a tile in that order and stops at the
  first pixel after whose vote \<open>domCount\<close> has reached \<open>win = tsize div 2\<close>. If the scan of a
  tile of \<open>n\<close> pixels is left with index \<open>k\<close> and state \<open>st\<close>, then \<open>st\<close> is the state after
  the votes of the pixels up to \<open>k\<close> (of all \<open>n\<close> pixels when no \<open>break\<close> was taken), the
  break is taken with \<open>win \<le> domCount\<close>, after no earlier vote had \<open>domCount\<close> reached
  \<open>win\<close>, and every buffer \<open>px'\<close> with the same keys up to \<open>k\<close> gives the same index and
  state, and so the same emitted colour: the pixels behind \<open>k\<close> are not looked at. The
  colour that is emitted is the dominant one of that state. In a tile of 5 pixels whose pixels
  0, 1 and 2 have the key \<open>A\<close> the scan is left at index 1 with \<open>A\<close> dominant, whatever
  the pixels 3 and 4 are.
\<close>

theorem early_exit:
  "(\<forall>area. image_ok img \<and> extract_area img x0 y0 w h = Inr area \<longrightarrow>
       (\<forall>i<w * h. \<forall>b<img_bands img.
          img_data area ! (i * img_bands img + b)
            = img_data img ! (((y0 + i div w) * img_width img + (x0 + i mod w)) * img_bands img + b)))
   \<and> (\<forall>k st. scan_tile bc n px = (k, st) \<longrightarrow>
       k \<le> n \<and> st = votes bc px (min (Suc k) n)
     \<and> (k < n \<longrightarrow> n div 2 \<le> domCount st)
     \<and> (\<forall>j<k. domCount (votes bc px (Suc j)) < n div 2)
     \<and> (\<forall>px'. (\<forall>j<min (Suc k) n. pack_color bc px' j = pack_color bc px j)
            \<longrightarrow> scan_tile bc n px' = (k, st))
     \<and> dominant_color bc n px = dominant (votes bc px (min (Suc k) n))
     \<and> (\<forall>px'. (\<forall>j<min (Suc k) n. pack_color bc px' j = pack_color bc px j)
            \<longrightarrow> dominant_color bc n px' = dominant_color bc n px))
   \<and> (pack_color bc px 0 = A \<and> pack_color bc px 1 = A \<and> pack_color bc px 2 = A
        \<longrightarrow> fst (scan_tile bc 5 px) = 1 \<and> dominant_color bc 5 px = A)"
proof (intro conjI allI impI)
  fix area i b
  assume "image_ok img \<and> extract_area img x0 y0 w h = Inr area" and "i < w * h" and "b < img_bands img"
  then show "img_data area ! (i * img_bands img + b)
      = img_data img ! (((y0 + i div w) * img_width img + (x0 + i mod w)) * img_bands img + b)"
    by (intro extract_area_nth) simp_all
next
  fix k st assume run: "scan_tile bc n px = (k, st)"
  from scan_tile_votes [OF run] have c: "k \<le> n" "st = votes bc px (min (Suc k) n)"
      "k < n \<Longrightarrow> n div 2 \<le> domCount st"
      "\<And>j. j < k \<Longrightarrow> domCount (votes bc px (Suc j)) < n div 2"
    by auto
  show "k \<le> n" using c by simp
  show "st = votes bc px (min (Suc k) n)" using c by simp
  show "n div 2 \<le> domCount st" if "k < n" using c that by simp
  show "domCount (votes bc px (Suc j)) < n div 2" if "j < k" for j using c that by simp
  show "scan_tile bc n px' = (k, st)"
    if "\<forall>j<min (Suc k) n. pack_color bc px' j = pack_color bc px j" for px'
    using run that by (rule scan_tile_prefix)
  show "dominant_color bc n px = dominant (votes bc px (min (Suc k) n))"
    using run c(2) by (simp add: dominant_color_def)
  show "dominant_color bc n px' = dominant_color bc n px"
    if "\<forall>j<min (Suc k) n. pack_color bc px' j = pack_color bc px j" for px'
    using scan_tile_prefix [OF run that] run by (simp add: dominant_color_def)
next
  assume A: "pack_color bc px 0 = A \<and> pack_color bc px 1 = A \<and> pack_color bc px 2 = A"
  from A have "scan_tile bc 5 px = (1, vote (vote tally0 A) A)"
    and "dominant (vote (vote tally0 A) A) = A"
    by (simp_all add: scan_two_votes [of bc px A 5])
  then show "fst (scan_tile bc 5 px) = 1" "dominant_color bc 5 px = A"
    by (simp_all add: dominant_color_def)
qed

theorem early_exit_witness:
  "image_ok strip_image
   \<and> extract_area strip_image 4 0 4 1
       = Inr \<lparr> img_width = 4, img_height = 1, img_bands = 1, img_data = [3, 3, 4, 4] \<rparr>
   \<and> [3, 3, 4, 4 :: u8] ! (2 * img_bands strip_image + 0)
       = img_data strip_image
           ! (((0 + 2 div 4) * img_width strip_image + (4 + 2 mod 4)) * img_bands strip_image + 0)
   \<and> pack_color 1 [7, 7, 7, 9, 9] 0 = 7 \<and> pack_color 1 [7, 7, 7, 9, 9] 1 = 7
   \<and> pack_color 1 [7, 7, 7, 9, 9] 2 = 7
   \<and> fst (scan_tile 1 5 [7, 7, 7, 9, 9]) = 1 \<and> dominant_color 1 5 [7, 7, 7, 9, 9] = 7
   \<and> scan_tile 1 5 [7, 7, 7, 0, 0] = scan_tile 1 5 [7, 7, 7, 9, 9]"
proof -
  have p: "pack_color 1 [7, 7, 7, 9, 9] 0 = 7 \<and> pack_color 1 [7, 7, 7, 9, 9] 1 = 7
      \<and> pack_color 1 [7, 7, 7, 9, 9] 2 = 7"
    by (simp add: pack_color_def)
  have a: "image_ok strip_image \<and> extract_area strip_image 4 0 4 1
       = Inr \<lparr> img_width = 4, img_height = 1, img_bands = 1, img_data = [3, 3, 4, 4] \<rparr>"
    by code_simp
  note ee = early_exit [of strip_image 4 0 4 1 1 5 "[7, 7, 7, 9, 9]" 7]
  from ee a have "\<forall>i<4 * 1. \<forall>b<img_bands strip_image.
      img_data \<lparr> img_width = 4, img_height = 1, img_bands = 1, img_data = [3, 3, 4, 4] \<rparr>
          ! (i * img_bands strip_image + b)
        = img_data strip_image
          ! (((0 + i div 4) * img_width strip_image + (4 + i mod 4)) * img_bands strip_image + b)"
    by blast
  then have row: "[3, 3, 4, 4 :: u8] ! (2 * img_bands strip_image + 0)
       = img_data strip_image
           ! (((0 + 2 div 4) * img_width strip_image + (4 + 2 mod 4)) * img_bands strip_image + 0)"
    by (simp add: strip_image_def)
  from ee p have inst: "fst (scan_tile 1 5 [7, 7, 7, 9, 9]) = 1 \<and> dominant_color 1 5 [7, 7, 7, 9, 9] = 7"
    by blast
  have run: "scan_tile 1 5 [7, 7, 7, 9, 9] = (1, snd (scan_tile 1 5 [7, 7, 7, 9, 9]))"
    using inst by (metis prod.collapse)
  have same: "\<forall>j<min (Suc 1) 5. pack_color 1 [7, 7, 7, 0, 0] j = pack_color 1 [7, 7, 7, 9, 9] j"
    by (simp add: pack_color_def less_Suc_eq)
  from ee run same have "scan_tile 1 5 [7, 7, 7, 0, 0] = (1, snd (scan_tile 1 5 [7, 7, 7, 9, 9]))"
    by blast
  with run p inst a row show ?thesis by simp
qed

text \<open>
  C4. The dominant colour is replaced only by a colour whose updated count is strictly
  greater than \<open>domCount\<close>. One pass of the loop body (the loop run for pixel \<open>i\<close> alone,
  from any state \<open>st0\<close>) makes the pixel's key dominant when its updated count exceeds
  \<open>domCount\<close>, and otherwise leaves \<open>dominant\<close> and \<open>domCount\<close> as they were. So among the
  pixels scanned, the dominant key at the end is that of the first pixel \<open>j\<close> whose vote
  brought a count to the final \<open>domCount\<close>: no earlier vote reached it, and no key
  exceeds it; that key is the colour emitted for the tile. A tile of 4 pixels with the keys \<open>A, A, B, B\<close> is reduced to \<open>A\<close>.
\<close>

theorem first_to_reach_count_wins:
  "(\<forall>k st. tile_loop bc px (Suc i) win i st0 = (k, st) \<longrightarrow>
       (domCount st0 < colors st0 (pack_color bc px i) + 1
          \<longrightarrow> dominant st = pack_color bc px i \<and> domCount st = colors st0 (pack_color bc px i) + 1)
     \<and> (\<not> domCount st0 < colors st0 (pack_color bc px i) + 1
          \<longrightarrow> dominant st = dominant st0 \<and> domCount st = domCount st0))
   \<and> (\<forall>k st. 0 < n \<and> scan_tile bc n px = (k, st) \<longrightarrow>
       (\<exists>j<min (Suc k) n. dominant st = pack_color bc px j
          \<and> count_list (keys bc px (Suc j)) (pack_color bc px j) = domCount st
          \<and> (\<forall>j'<j. count_list (keys bc px (Suc j')) (pack_color bc px j') < domCount st))
     \<and> (\<forall>c. count_list (keys bc px (min (Suc k) n)) c \<le> domCount st)
     \<and> dominant_color bc n px = dominant st)
   \<and> (pack_color bc px 0 = A \<and> pack_color bc px 1 = A
        \<and> pack_color bc px 2 = B \<and> pack_color bc px 3 = B \<and> A \<noteq> B
        \<longrightarrow> dominant_color bc 4 px = A)"
proof -
  have step: "(domCount st0 < colors st0 (pack_color bc px i) + 1
          \<longrightarrow> dominant st = pack_color bc px i \<and> domCount st = colors st0 (pack_color bc px i) + 1)
     \<and> (\<not> domCount st0 < colors st0 (pack_color bc px i) + 1
          \<longrightarrow> dominant st = dominant st0 \<and> domCount st = domCount st0)"
    if "tile_loop bc px (Suc i) win i st0 = (k, st)" for k st
    unfolding tile_loop_one [OF that] by (simp add: dominant_vote domCount_vote)
  have inst: "dominant_color bc 4 px = A"
    if "pack_color bc px 0 = A \<and> pack_color bc px 1 = A"
    using scan_two_votes [of bc px A 4] that by (simp add: dominant_color_def)
  have emitted: "dominant_color bc n px = dominant st" if "scan_tile bc n px = (k, st)" for k st
    using that by (simp add: dominant_color_def)
  show ?thesis
    using step scan_tile_first [of n bc px] emitted inst by blast
qed

theorem first_to_reach_count_wins_witness:
  "pack_color 1 [5, 5, 6, 6] 0 = 5 \<and> pack_color 1 [5, 5, 6, 6] 1 = 5
   \<and> pack_color 1 [5, 5, 6, 6] 2 = 6 \<and> pack_color 1 [5, 5, 6, 6] 3 = 6 \<and> (5 :: u32) \<noteq> 6
   \<and> dominant_color 1 4 [5, 5, 6, 6] = 5
   \<and> \<not> domCount (votes 1 [5, 5, 6, 6] 3)
         < colors (votes 1 [5, 5, 6, 6] 3) (pack_color 1 [5, 5, 6, 6] 3) + 1
   \<and> dominant (snd (tile_loop 1 [5, 5, 6, 6] (Suc 3) 9 3 (votes 1 [5, 5, 6, 6] 3))) = 5
   \<and> (0 :: nat) < 4
   \<and> (\<exists>j<min (Suc (fst (scan_tile 1 4 [5, 5, 6, 6]))) 4.
         dominant (snd (scan_tile 1 4 [5, 5, 6, 6])) = pack_color 1 [5, 5, 6, 6] j
       \<and> count_list (keys 1 [5, 5, 6, 6] (Suc j)) (pack_color 1 [5, 5, 6, 6] j)
           = domCount (snd (scan_tile 1 4 [5, 5, 6, 6])))"
proof -
  have p: "pack_color 1 [5, 5, 6, 6] 0 = 5 \<and> pack_color 1 [5, 5, 6, 6] 1 = 5
      \<and> pack_color 1 [5, 5, 6, 6] 2 = 6 \<and> pack_color 1 [5, 5, 6, 6] 3 = 6 \<and> (5 :: u32) \<noteq> 6"
    by (simp add: pack_color_def)
  have v: "domCount (votes 1 [5, 5, 6, 6] 3) = 2" "dominant (votes 1 [5, 5, 6, 6] 3) = 5"
      "colors (votes 1 [5, 5, 6, 6] 3) 6 = 1"
    by code_simp+
  note w = first_to_reach_count_wins [where bc = 1 and px = "[5, 5, 6, 6]" and i = 3 and win = 9
      and ?st0.0 = "votes 1 [5, 5, 6, 6] 3" and n = 4 and A = 5 and B = 6]
  have tie: "\<not> domCount (votes 1 [5, 5, 6, 6] 3)
         < colors (votes 1 [5, 5, 6, 6] 3) (pack_color 1 [5, 5, 6, 6] 3) + 1"
    using p v by simp
  have "tile_loop 1 [5, 5, 6, 6] (Suc 3) 9 3 (votes 1 [5, 5, 6, 6] 3)
      = (fst (tile_loop 1 [5, 5, 6, 6] (Suc 3) 9 3 (votes 1 [5, 5, 6, 6] 3)),
         snd (tile_loop 1 [5, 5, 6, 6] (Suc 3) 9 3 (votes 1 [5, 5, 6, 6] 3)))"
    by simp
  with w tie have one: "dominant (snd (tile_loop 1 [5, 5, 6, 6] (Suc 3) 9 3 (votes 1 [5, 5, 6, 6] 3)))
      = dominant (votes 1 [5, 5, 6, 6] 3)"
    by blast
  from w p have inst: "dominant_color 1 4 [5, 5, 6, 6] = 5"
    by blast
  have "(0 :: nat) < 4 \<and> scan_tile 1 4 [5, 5, 6, 6]
      = (fst (scan_tile 1 4 [5, 5, 6, 6]), snd (scan_tile 1 4 [5, 5, 6, 6]))"
    by simp
  with w have first: "\<exists>j<min (Suc (fst (scan_tile 1 4 [5, 5, 6, 6]))) 4.
         dominant (snd (scan_tile 1 4 [5, 5, 6, 6])) = pack_color 1 [5, 5, 6, 6] j
       \<and> count_list (keys 1 [5, 5, 6, 6] (Suc j)) (pack_color 1 [5, 5, 6, 6] j)
           = domCount (snd (scan_tile 1 4 [5, 5, 6, 6]))"
    by blast
  from one inst first show ?thesis using p tie v by simp
qed

text \<open>
  C10. For a tile of at least one pixel, the key that the reducer emits is the key of a
  pixel \<open>j\<close> that it has scanned, and with at most four bands the bytes painted into
  the output buffer (at an offset inside the buffer) are the bands of that pixel. In
  particular the initial value 0 of \<open>dominant\<close> is emitted only as the key of a pixel of
  the tile. The same holds for the body of the tile loops of \<open>work\<close>: the bytes it
  writes for tile \<open>(x, y)\<close> are the bands of a pixel of the area of that tile.
\<close>

theorem emitted_color_occurs:
  assumes "0 < n"
  shows "(\<exists>j<n. j \<le> fst (scan_tile bc n px)
           \<and> dominant_color bc n px = pack_color bc px j
           \<and> (bc \<le> 4 \<and> base + bc \<le> length out \<longrightarrow>
                (\<forall>b<bc. paint bc base (dominant_color bc n px) out ! (base + b)
                    = px ! (j * bc + b))))
       \<and> (dominant_color bc n px = 0 \<longrightarrow> (\<exists>j<n. pack_color bc px j = 0))
       \<and> (\<forall>out'. n = x_factor * y_factor
             \<and> work_tile x_factor y_factor bc img xt x y out = Inr out'
             \<and> bc \<le> 4 \<and> (y * xt + x) * bc + bc \<le> length out \<longrightarrow>
             (\<exists>area j. extract_area img (x * x_factor) (y * y_factor) x_factor y_factor = Inr area
                \<and> j < n
                \<and> (\<forall>b<bc. out' ! ((y * xt + x) * bc + b) = img_data area ! (j * bc + b))))"
proof -
  have key: "\<exists>j<n. j \<le> fst (scan_tile bc n px)
           \<and> dominant_color bc n px = pack_color bc px j
           \<and> (bc \<le> 4 \<and> base + bc \<le> length out \<longrightarrow>
                (\<forall>b<bc. paint bc base (dominant_color bc n px) out ! (base + b)
                    = px ! (j * bc + b)))" for px base
  proof -
    obtain k st where run: "scan_tile bc n px = (k, st)" by (cases "scan_tile bc n px")
    from scan_tile_votes [OF run] have st: "st = votes bc px (min (Suc k) n)" by blast
    from assms have "0 < min (Suc k) n" by simp
    from votes_first [OF this, of bc px] obtain j
      where j: "j < min (Suc k) n" "dominant st = pack_color bc px j"
      unfolding st by blast
    have dom: "dominant_color bc n px = pack_color bc px j"
      using run j by (simp add: dominant_color_def)
    have "paint bc base (dominant_color bc n px) out ! (base + b) = px ! (j * bc + b)"
      if "bc \<le> 4" "base + bc \<le> length out" "b < bc" for b
      unfolding dom paint_nth [OF that(2,3)] by (rule unpack_pack [OF that(1,3)])
    with j dom run show ?thesis
      by (intro exI [of _ j]) simp
  qed
  have zero: "\<exists>j<n. pack_color bc px j = 0" if "dominant_color bc n px = 0"
    using key [of px base] that by metis
  have tile: "\<exists>area j. extract_area img (x * x_factor) (y * y_factor) x_factor y_factor = Inr area
                \<and> j < n
                \<and> (\<forall>b<bc. out' ! ((y * xt + x) * bc + b) = img_data area ! (j * bc + b))"
    if "n = x_factor * y_factor \<and> work_tile x_factor y_factor bc img xt x y out = Inr out'
        \<and> bc \<le> 4 \<and> (y * xt + x) * bc + bc \<le> length out" for out'
  proof -
    from that obtain area
      where area: "extract_area img (x * x_factor) (y * y_factor) x_factor y_factor = Inr area"
        and out': "out' = paint bc ((y * xt + x) * bc) (dominant_color bc n (img_data area)) out"
      by (auto simp: work_tile_def and_then_def split: sum.splits)
    from key [of "img_data area" "(y * xt + x) * bc"] that obtain j where "j < n"
        "\<forall>b<bc. paint bc ((y * xt + x) * bc) (dominant_color bc n (img_data area)) out
            ! ((y * xt + x) * bc + b) = img_data area ! (j * bc + b)"
      by blast
    with area out' show ?thesis by blast
  qed
  from key [of px base] zero tile show ?thesis by blast
qed

theorem emitted_color_occurs_witness:
  "(0 :: nat) < 2
   \<and> (\<exists>j<2. j \<le> fst (scan_tile 3 2 [1, 2, 3, 4, 5, 6])
         \<and> dominant_color 3 2 [1, 2, 3, 4, 5, 6] = pack_color 3 [1, 2, 3, 4, 5, 6] j
         \<and> (\<forall>b<3. paint 3 0 (dominant_color 3 2 [1, 2, 3, 4, 5, 6]) [0, 0, 0] ! (0 + b)
                = [1, 2, 3, 4, 5, 6] ! (j * 3 + b)))
   \<and> dominant_color 1 2 [0, 5] = 0 \<and> (\<exists>j<2. pack_color 1 [0, 5] j = 0)
   \<and> work_tile 2 1 3 \<lparr> img_width = 2, img_height = 1, img_bands = 3, img_data = [1, 2, 3, 4, 5, 6] \<rparr>
        1 0 0 [0, 0, 0] = Inr [1, 2, 3]
   \<and> (\<exists>area j. extract_area
           \<lparr> img_width = 2, img_height = 1, img_bands = 3, img_data = [1, 2, 3, 4, 5, 6] \<rparr>
           (0 * 2) (0 * 1) 2 1 = Inr area
         \<and> j < 2
         \<and> (\<forall>b<3. [1, 2, 3 :: u8] ! ((0 * 1 + 0) * 3 + b) = img_data area ! (j * 3 + b)))"
proof -
  have h: "(0 :: nat) < 2"
    by simp
  have b: "(3 :: nat) \<le> 4 \<and> 0 + 3 \<le> length [0, 0, 0 :: u8]"
    by simp
  have w: "work_tile 2 1 3 \<lparr> img_width = 2, img_height = 1, img_bands = 3, img_data = [1, 2, 3, 4, 5, 6] \<rparr>
        1 0 0 [0, 0, 0] = Inr [1, 2, 3]"
    by code_simp
  have z: "dominant_color 1 2 [0, 5] = 0"
    by code_simp
  note t = emitted_color_occurs [OF h, where bc = 3 and px = "[1, 2, 3, 4, 5, 6]" and base = 0
      and out = "[0, 0, 0]" and x_factor = 2 and y_factor = 1 and xt = 1 and x = 0 and y = 0
      and img = "\<lparr> img_width = 2, img_height = 1, img_bands = 3, img_data = [1, 2, 3, 4, 5, 6] \<rparr>"]
  from t b
  have key: "\<exists>j<2. j \<le> fst (scan_tile 3 2 [1, 2, 3, 4, 5, 6])
         \<and> dominant_color 3 2 [1, 2, 3, 4, 5, 6] = pack_color 3 [1, 2, 3, 4, 5, 6] j
         \<and> (\<forall>b<3. paint 3 0 (dominant_color 3 2 [1, 2, 3, 4, 5, 6]) [0, 0, 0] ! (0 + b)
                = [1, 2, 3, 4, 5, 6] ! (j * 3 + b))"
    by blast
  have pre: "(2 :: nat) = 2 * 1
      \<and> work_tile 2 1 3 \<lparr> img_width = 2, img_height = 1, img_bands = 3, img_data = [1, 2, 3, 4, 5, 6] \<rparr>
            1 0 0 [0, 0, 0] = Inr [1, 2, 3]
      \<and> (3 :: nat) \<le> 4 \<and> (0 * 1 + 0) * 3 + 3 \<le> length [0, 0, 0 :: u8]"
    using w by simp
  from t pre
  have tile: "\<exists>area j. extract_area
           \<lparr> img_width = 2, img_height = 1, img_bands = 3, img_data = [1, 2, 3, 4, 5, 6] \<rparr>
           (0 * 2) (0 * 1) 2 1 = Inr area
         \<and> j < 2
         \<and> (\<forall>b<3. [1, 2, 3 :: u8] ! ((0 * 1 + 0) * 3 + b) = img_data area ! (j * 3 + b))"
    by blast
  from emitted_color_occurs [OF h, where bc = 1 and px = "[0, 5]"] z
  have zero: "\<exists>j<2. pack_color 1 [0, 5] j = 0"
    by blast
  from h key z zero w tile show ?thesis by blast
qed

text \<open>
  C1. The claim is that the pixel written for a tile is the colour with the most pixels
  in the tile. The early exit at \<open>win = tsize div 2\<close> breaks this for tiles of odd size:
  with factors 3 and 1 the threshold is 1, so the first pixel of the tile \<open>1, 2, 2\<close> is
  emitted although 2 fills two of the three pixels; in a tile of 9 pixels the colour
  that first fills 4 is emitted although another fills 5.
\<close>

theorem first_pixel_beats_majority:
  "dominant_color 1 3 [1, 2, 2] = 1
   \<and> count_list (keys 1 [1, 2, 2] 3) 1 = 1 \<and> count_list (keys 1 [1, 2, 2] 3) 2 = 2
   \<and> work 3 1 1 \<lparr> img_width = 3, img_height = 1, img_bands = 1, img_data = [1, 2, 2] \<rparr> [0]
       = Inr [1]
   \<and> dominant_color 1 9 [1, 1, 1, 1, 2, 2, 2, 2, 2] = 1
   \<and> count_list (keys 1 [1, 1, 1, 1, 2, 2, 2, 2, 2] 9) 1 = 4
   \<and> count_list (keys 1 [1, 1, 1, 1, 2, 2, 2, 2, 2] 9) 2 = 5"
  by code_simp

lemma count_list_two:
  "c \<noteq> d \<Longrightarrow> count_list xs c + count_list xs d \<le> length xs"
  by (induction xs) auto

lemma length_keys: "length (keys bc px m) = m"
  by (simp add: keys_def)

lemma votes_dominant_count:
  assumes "0 < m"
  shows "count_list (keys bc px m) (dominant (votes bc px m)) = domCount (votes bc px m)"
proof -
  from votes_first [OF assms, of bc px] obtain j where j: "j < m"
      "dominant (votes bc px m) = pack_color bc px j"
      "count_list (keys bc px (Suc j)) (pack_color bc px j) = domCount (votes bc px m)"
    by blast
  have "count_list (keys bc px (Suc j)) (pack_color bc px j)
      \<le> count_list (keys bc px m) (pack_color bc px j)"
    using j(1) by (intro keys_mono) simp
  with j(2,3) have "domCount (votes bc px m) \<le> count_list (keys bc px m) (dominant (votes bc px m))"
    by simp
  with votes_max [of bc px m "dominant (votes bc px m)"] show ?thesis
    by simp
qed

text \<open>
  For tiles of even size the defect does not show: the colour that is emitted has the
  most pixels of the whole tile (possibly tied with another colour).
\<close>

lemma even_tile_dominant_max:
  assumes "even n" and "0 < n"
  shows "count_list (keys bc px n) c \<le> count_list (keys bc px n) (dominant_color bc n px)"
proof -
  obtain k st where run: "scan_tile bc n px = (k, st)" by (cases "scan_tile bc n px")
  let ?m = "min (Suc k) n"
  let ?D = "dominant_color bc n px"
  from scan_tile_votes [OF run] have kn: "k \<le> n" and st: "st = votes bc px ?m"
    and brk: "k < n \<Longrightarrow> n div 2 \<le> domCount st"
    by auto
  have D: "?D = dominant (votes bc px ?m)"
    using run st by (simp add: dominant_color_def)
  have m: "0 < ?m" using assms(2) by simp
  have cnt: "count_list (keys bc px ?m) ?D = domCount st"
    unfolding D st by (rule votes_dominant_count [OF m])
  show ?thesis
  proof (cases "k < n")
    case False
    with kn have "?m = n" by simp
    with cnt votes_max [of bc px n c] st show ?thesis by simp
  next
    case True
    have "count_list (keys bc px ?m) ?D \<le> count_list (keys bc px n) ?D"
      by (intro keys_mono) simp
    with cnt brk [OF True] have half: "n div 2 \<le> count_list (keys bc px n) ?D" by simp
    show ?thesis
    proof (cases "c = ?D")
      case True
      then show ?thesis by simp
    next
      case False
      from count_list_two [OF False, of "keys bc px n"]
      have "count_list (keys bc px n) c + count_list (keys bc px n) ?D \<le> n"
        by (simp add: length_keys)
      with half assms(1) show ?thesis by presburger
    qed
  qed
qed

section \<open>Properties of the section planner\<close>

lemma even_unat: "even (unat (w :: u32)) \<longleftrightarrow> even w"
  by (simp add: even_iff_mod_2_eq_zero word_unat_eq_iff unat_mod)

lemma make_even_even: "even (make_even H)"
proof (cases "even H")
  case True
  then show ?thesis by (simp add: make_even_def even_iff_mod_2_eq_zero)
next
  case False
  then have "H mod 2 = 1" by (simp add: odd_iff_mod_2_eq_one)
  with False show ?thesis by (simp add: make_even_def)
qed

lemma cut_workers_returns:
  "even w \<Longrightarrow> \<exists>r. cut_workers xt yt w = Some r \<and> even r \<and> r \<le> w \<and> r \<le> xt \<and> r \<le> yt"
proof (induction w rule: measure_induct_rule [where f = unat])
  case (less w)
  show ?case
  proof (cases "w > xt \<or> w > yt")
    case False
    then show ?thesis using less.prems by (subst cut_workers.simps) auto
  next
    case True
    then have "w \<noteq> 0" by (auto simp: word_less_nat_alt)
    then have "unat w \<noteq> 0" by (simp add: unat_0_iff)
    moreover have ev: "even (unat w)" using less.prems by (simp add: even_unat)
    ultimately have ge: "2 \<le> unat w" by presburger
    then have le: "(2 :: u32) \<le> w" by (simp add: word_le_nat_alt)
    then have sub: "unat (w - 2) = unat w - 2" by (simp add: unat_sub)
    have lt: "unat (w - 2) < unat w" using sub ge by simp
    have ev2: "even (w - 2)" using less.prems by simp
    from less.IH [OF lt ev2] obtain r where r: "cut_workers xt yt (w - 2) = Some r" "even r"
        "r \<le> w - 2" "r \<le> xt" "r \<le> yt"
      by auto
    have "w - 2 \<le> w" using sub by (simp add: word_le_nat_alt)
    with r True show ?thesis by (subst cut_workers.simps) auto
  qed
qed

lemma worker_count_returns:
  "\<exists>workerCount. worker_count H xt yt = Inr workerCount \<and> 1 \<le> workerCount
      \<and> (workerCount \<le> xt \<and> workerCount \<le> yt \<or> workerCount = 1)"
proof -
  from cut_workers_returns [OF make_even_even, of xt yt H] obtain r
    where r: "cut_workers xt yt (make_even H) = Some r" "r \<le> xt" "r \<le> yt" by blast
  show ?thesis
  proof (cases "r = 0")
    case True
    with r show ?thesis by (simp add: worker_count_def)
  next
    case False
    then have "1 \<le> r" by (simp add: word_le_nat_alt unat_gt_0 Suc_le_eq)
    with r False show ?thesis by (auto simp add: worker_count_def)
  qed
qed

lemma sle_1_nonzero: "1 \<le>s (x :: u32) \<Longrightarrow> x \<noteq> 0"
  by (auto simp: word_sle_eq)

lemma planner_workerCount:
  assumes "planner width height x_factor y_factor H = Inr p"
  shows "worker_count H (width div x_factor) (height div y_factor) = Inr (plan_workerCount p)"
  using assms
  by (auto simp: planner_def and_then_def udiv_def Let_def split: sum.splits if_splits)

text \<open>
  C6. For factors of at least 1, any image size and any number \<open>H\<close> of hardware
  threads, the two divisions that give the tile counts succeed, the loop that cuts the
  worker count returns, and the worker count that the planner computes is at least 1.
\<close>

theorem worker_count_floor:
  assumes "1 \<le>s x_factor" and "1 \<le>s y_factor"
  shows "udiv width x_factor = Inr (width div x_factor)
       \<and> udiv height y_factor = Inr (height div y_factor)
       \<and> (\<exists>r. cut_workers (width div x_factor) (height div y_factor) (make_even H) = Some r)
       \<and> (\<exists>workerCount. worker_count H (width div x_factor) (height div y_factor) = Inr workerCount
             \<and> 1 \<le> workerCount)
       \<and> (\<forall>p. planner width height x_factor y_factor H = Inr p \<longrightarrow> 1 \<le> plan_workerCount p)"
proof (intro conjI allI impI)
  show "udiv width x_factor = Inr (width div x_factor)"
    using assms(1) by (simp add: udiv_def sle_1_nonzero)
  show "udiv height y_factor = Inr (height div y_factor)"
    using assms(2) by (simp add: udiv_def sle_1_nonzero)
  show "\<exists>r. cut_workers (width div x_factor) (height div y_factor) (make_even H) = Some r"
    using cut_workers_returns [OF make_even_even] by blast
  show "\<exists>workerCount. worker_count H (width div x_factor) (height div y_factor) = Inr workerCount
             \<and> 1 \<le> workerCount"
    using worker_count_returns by blast
  fix p assume "planner width height x_factor y_factor H = Inr p"
  from planner_workerCount [OF this] worker_count_returns [of H "width div x_factor" "height div y_factor"]
  show "1 \<le> plan_workerCount p" by auto
qed

theorem worker_count_floor_witness:
  "1 \<le>s (2 :: u32) \<and> 1 \<le>s (3 :: u32)
   \<and> udiv 10 2 = Inr (10 div 2) \<and> udiv 7 3 = Inr (7 div 3)
   \<and> (\<exists>workerCount. worker_count 8 (10 div 2) (7 div 3) = Inr workerCount \<and> 1 \<le> workerCount)
   \<and> (\<exists>p. planner 10 7 2 3 8 = Inr p \<and> plan_workerCount p = 2 \<and> 1 \<le> plan_workerCount p)"
proof -
  have h: "1 \<le>s (2 :: u32)" "1 \<le>s (3 :: u32)"
    by (simp_all add: word_sle_eq)
  have pl: "planner 10 7 2 3 8
      = Inr \<lparr> plan_x_tiles = 5, plan_y_tiles = 2, plan_workerCount = 2,
              plan_x_section = 2, plan_y_section = 1,
              plan_x_sectionSize = 4, plan_y_sectionSize = 3,
              plan_x_sectionCount = 2, plan_y_sectionCount = 2 \<rparr>"
    by code_simp
  note t = worker_count_floor [OF h, of 10 7 8]
  from t pl have "1 \<le> plan_workerCount \<lparr> plan_x_tiles = 5, plan_y_tiles = 2, plan_workerCount = 2,
              plan_x_section = 2, plan_y_section = 1,
              plan_x_sectionSize = 4, plan_y_sectionSize = 3,
              plan_x_sectionCount = 2, plan_y_sectionCount = (2 :: u32) \<rparr>"
    by blast
  with pl have "\<exists>p. planner 10 7 2 3 8 = Inr p \<and> plan_workerCount p = 2 \<and> 1 \<le> plan_workerCount p"
    by simp
  with t h show ?thesis
    by blast
qed

subsection \<open>A factor larger than the image\<close>

lemma shrink_section_0: "shrink_section m 0 = 0"
  by (subst shrink_section.simps) simp

lemma worker_count_no_tiles: "worker_count H 0 yt = Inr 1"
proof -
  from cut_workers_returns [OF make_even_even, of 0 yt H] obtain r
    where "cut_workers 0 yt (make_even H) = Some r" "r \<le> 0" by blast
  then show ?thesis by (simp add: worker_count_def)
qed

lemma div_less_word: "(a :: u32) < b \<Longrightarrow> a div b = 0"
  by (simp add: word_unat_eq_iff unat_div word_less_nat_alt)

text \<open>
  C7. Nothing checks the factors against the image size. When \<open>x_factor\<close> exceeds the
  width (both factors at least 1, as \<open>main\<close> requires), \<open>x_tiles\<close> is 0, the worker count
  is cut to 0 and clamped to 1, \<open>x_section\<close> and \<open>x_sectionSize\<close> are 0, and the division
  \<open>width / x_sectionSize\<close> divides by zero: the planner fails there, and so does \<open>main\<close>
  after it has opened the image (unless both factors are 1, when the planner is not
  run).
\<close>

theorem oversized_factor_divides_by_zero:
  assumes "1 \<le>s x_factor" and "1 \<le>s y_factor" and "width < x_factor"
  shows "udiv width x_factor = Inr 0
       \<and> udiv height y_factor = Inr (height div y_factor)
       \<and> worker_count H 0 (height div y_factor) = Inr 1
       \<and> udiv 0 1 = Inr 0
       \<and> shrink_section (x_factor * x_factor) 0 * x_factor = 0
       \<and> udiv width (shrink_section (x_factor * x_factor) 0 * x_factor) = Inl DivisionByZero
       \<and> planner width height x_factor y_factor H = Inl DivisionByZero
       \<and> (\<forall>vips_init_failed atoi new_from_file pngsave argv img.
            \<not> vips_init_failed \<and> 5 \<le> length argv
            \<and> atoi (argv ! 1) = x_factor \<and> atoi (argv ! 2) = y_factor
            \<and> \<not> (x_factor = 1 \<and> y_factor = 1)
            \<and> new_from_file (argv ! 3) = Some img
            \<and> of_nat (img_width img) = width \<and> of_nat (img_height img) = height
            \<longrightarrow> main vips_init_failed atoi new_from_file pngsave H argv
                  = (Abort DivisionByZero, [Opened (argv ! 3)]))"
proof -
  have x0: "x_factor \<noteq> 0" and y0: "y_factor \<noteq> 0"
    using assms by (simp_all add: sle_1_nonzero)
  have xt: "udiv width x_factor = Inr 0"
    using x0 assms(3) by (simp add: udiv_def div_less_word)
  have yt: "udiv height y_factor = Inr (height div y_factor)"
    using y0 by (simp add: udiv_def)
  have wc: "worker_count H 0 (height div y_factor) = Inr 1"
    by (rule worker_count_no_tiles)
  have d1: "udiv 0 1 = Inr 0" "udiv (height div y_factor) 1 = Inr (height div y_factor)"
    by (simp_all add: udiv_def)
  have xs: "shrink_section (x_factor * x_factor) 0 * x_factor = 0"
    by (simp add: shrink_section_0)
  have bad: "udiv width (shrink_section (x_factor * x_factor) 0 * x_factor) = Inl DivisionByZero"
    by (simp add: xs udiv_def)
  have pl: "planner width height x_factor y_factor H = Inl DivisionByZero"
    by (simp add: planner_def xt yt wc d1 and_then_def Let_def bad)
  have "main vips_init_failed atoi new_from_file pngsave H argv = (Abort DivisionByZero, [Opened (argv ! 3)])"
    if "\<not> vips_init_failed \<and> 5 \<le> length argv
        \<and> atoi (argv ! 1) = x_factor \<and> atoi (argv ! 2) = y_factor
        \<and> \<not> (x_factor = 1 \<and> y_factor = 1)
        \<and> new_from_file (argv ! 3) = Some img
        \<and> of_nat (img_width img) = width \<and> of_nat (img_height img) = height"
    for vips_init_failed atoi new_from_file pngsave argv img
  proof -
    have "scale x_factor y_factor H img = Inl DivisionByZero"
      using that pl by (simp add: scale_def and_then_def)
    moreover have "\<not> x_factor <s 1" "\<not> y_factor <s 1"
      using assms by (simp_all add: word_sle_eq word_sless_alt)
    ultimately show ?thesis
      using that by (auto simp add: main_def Let_def)
  qed
  with xt yt wc d1 xs bad pl show ?thesis by blast
qed

theorem oversized_factor_divides_by_zero_witness:
  "1 \<le>s (5 :: u32) \<and> 1 \<le>s (2 :: u32) \<and> (3 :: u32) < 5
   \<and> planner 3 10 5 2 4 = Inl DivisionByZero
   \<and> main False (\<lambda>s. if s = ''5'' then 5 else 2)
        (\<lambda>s. Some \<lparr> img_width = 3, img_height = 10, img_bands = 1, img_data = replicate 30 0 \<rparr>)
        (\<lambda>path out. True) 4 [''aniniscale'', ''5'', ''2'', ''in.png'', ''out.png'']
       = (Abort DivisionByZero, [Opened ''in.png''])"
proof -
  have h: "1 \<le>s (5 :: u32)" "1 \<le>s (2 :: u32)" "(3 :: u32) < 5"
    by (simp_all add: word_sle_eq)
  note t = oversized_factor_divides_by_zero [OF h, of 10 4]
  from t have pl: "planner 3 10 5 2 4 = Inl DivisionByZero"
    by blast
  from t have "\<forall>vips_init_failed atoi new_from_file pngsave argv img.
            \<not> vips_init_failed \<and> 5 \<le> length argv
            \<and> atoi (argv ! 1) = 5 \<and> atoi (argv ! 2) = 2
            \<and> \<not> ((5 :: u32) = 1 \<and> (2 :: u32) = 1)
            \<and> new_from_file (argv ! 3) = Some img
            \<and> of_nat (img_width img) = (3 :: u32) \<and> of_nat (img_height img) = (10 :: u32)
            \<longrightarrow> main vips_init_failed atoi new_from_file pngsave 4 argv
                  = (Abort DivisionByZero, [Opened (argv ! 3)])"
    by blast
  from this [rule_format, where vips_init_failed = False
      and argv = "[''aniniscale'', ''5'', ''2'', ''in.png'', ''out.png'']"
      and atoi = "\<lambda>s. if s = ''5'' then 5 else 2"
      and new_from_file = "\<lambda>s. Some \<lparr> img_width = 3, img_height = 10, img_bands = 1, img_data = replicate 30 0 \<rparr>"
      and pngsave = "\<lambda>path out. True"
      and img = "\<lparr> img_width = 3, img_height = 10, img_bands = 1, img_data = replicate 30 0 \<rparr>"]
  have "main False (\<lambda>s. if s = ''5'' then 5 else 2)
        (\<lambda>s. Some \<lparr> img_width = 3, img_height = 10, img_bands = 1, img_data = replicate 30 0 \<rparr>)
        (\<lambda>path out. True) 4 [''aniniscale'', ''5'', ''2'', ''in.png'', ''out.png'']
       = (Abort DivisionByZero, [Opened ''in.png''])"
    by simp
  with h pl show ?thesis by simp
qed

subsection \<open>The section grid\<close>

lemma shrink_section_le: "shrink_section m s \<le> s"
proof (induction m s rule: shrink_section.induct)
  case (1 m s)
  show ?case
  proof (cases "s > m")
    case True
    then have "shrink_section m s = shrink_section m (s div 2)"
      by (subst shrink_section.simps) simp
    also have "\<dots> \<le> s div 2" using 1 True by simp
    also have "s div 2 \<le> s" by (simp add: word_le_nat_alt unat_div)
    finally show ?thesis .
  next
    case False
    then show ?thesis by (subst shrink_section.simps) simp
  qed
qed

text \<open>What a plan says about the run of the planner that returned it.\<close>

lemma planner_InrD:
  assumes "planner width height x_factor y_factor H = Inr p"
  shows "x_factor \<noteq> 0" "y_factor \<noteq> 0"
    "plan_x_tiles p = width div x_factor" "plan_y_tiles p = height div y_factor"
    "worker_count H (width div x_factor) (height div y_factor) = Inr (plan_workerCount p)"
    "plan_x_section p = shrink_section (x_factor * x_factor) (plan_x_tiles p div plan_workerCount p)"
    "plan_y_section p = shrink_section (y_factor * y_factor) (plan_y_tiles p div plan_workerCount p)"
    "plan_x_sectionSize p = plan_x_section p * x_factor"
    "plan_y_sectionSize p = plan_y_section p * y_factor"
    "plan_x_sectionSize p \<noteq> 0" "plan_y_sectionSize p \<noteq> 0"
    "plan_x_sectionCount p = width div plan_x_sectionSize p"
    "plan_y_sectionCount p = height div plan_y_sectionSize p"
  using assms
  by (auto simp: planner_def and_then_def udiv_def Let_def split: sum.splits if_splits)

text \<open>The geometry of one axis, on natural numbers.\<close>

lemma axis_geometry:
  fixes width factor tiles workers sect :: u32
  assumes f: "factor \<noteq> 0"
    and s: "sect = shrink_section m (width div factor div workers)"
    and z: "sect * factor \<noteq> 0"
  shows "unat (sect * factor) = unat sect * unat factor"
    and "unat (width div (sect * factor)) * unat (sect * factor) \<le> unat width"
    and "unat (width div (sect * factor)) * unat sect \<le> unat (width div factor)"
proof -
  have "sect \<le> width div factor div workers" unfolding s by (rule shrink_section_le)
  then have "unat sect \<le> unat width div unat factor div unat workers"
    by (simp add: word_le_nat_alt unat_div)
  also have "\<dots> \<le> unat width div unat factor" by (rule div_le_dividend)
  finally have le: "unat sect \<le> unat width div unat factor" .
  have fpos: "0 < unat factor" using f by (simp add: unat_gt_0)
  have "unat sect * unat factor \<le> (unat width div unat factor) * unat factor"
    using le by (rule mult_le_mono1)
  also have "\<dots> \<le> unat width" by simp
  finally have bound: "unat sect * unat factor \<le> unat width" .
  moreover have "unat width < 2 ^ LENGTH(32)" by (rule unsigned_less)
  ultimately have "unat sect * unat factor < 2 ^ LENGTH(32)" by (rule le_less_trans)
  then show size: "unat (sect * factor) = unat sect * unat factor"
    by (rule unat_mult_lem [THEN iffD1])
  show "unat (width div (sect * factor)) * unat (sect * factor) \<le> unat width"
    by (simp add: unat_div)
  have pos: "0 < unat sect * unat factor"
    using z size by (metis unat_gt_0)
  have "unat width div (unat sect * unat factor) * unat sect * unat factor \<le> unat width"
    by (simp add: mult.assoc)
  then have "unat width div (unat sect * unat factor) * unat sect \<le> unat width div unat factor"
    using fpos by (simp add: less_eq_div_iff_mult_less_eq)
  then show "unat (width div (sect * factor)) * unat sect \<le> unat (width div factor)"
    by (simp add: unat_div size)
qed


lemma task_coordsD:
  assumes "coords \<in> set (task_coords p)"
  obtains i j where "i < unat (plan_x_sectionCount p)" "j < unat (plan_y_sectionCount p)"
    "coords = (of_nat i, of_nat j)"
  using assms by (auto simp: task_coords_def)

lemma unat_index_mult:
  fixes count sz :: u32
  assumes "i < unat count" and "unat count * unat sz \<le> n" and "n < 2 ^ LENGTH(32)"
  shows "unat (of_nat i * sz) = i * unat sz"
proof -
  have "i < 2 ^ LENGTH(32)"
    using assms(1) unsigned_less [of count] by (rule less_trans)
  then have i: "unat (of_nat i :: u32) = i"
    by (simp add: unat_of_nat)
  have "i * unat sz \<le> unat count * unat sz"
    using assms(1) by (intro mult_le_mono1) simp
  with assms(2,3) have "unat (of_nat i :: u32) * unat sz < 2 ^ LENGTH(32)"
    unfolding i by linarith
  then have "unat (of_nat i * sz) = unat (of_nat i :: u32) * unat sz"
    by (rule unat_mult_lem [THEN iffD1])
  with i show ?thesis by simp
qed

lemma planner_grid:
  assumes pl: "planner width height x_factor y_factor H = Inr p"
  shows "unat (plan_x_sectionCount p) * unat (plan_x_sectionSize p) \<le> unat width"
    and "unat (plan_y_sectionCount p) * unat (plan_y_sectionSize p) \<le> unat height"
    and "unat (plan_x_sectionCount p) * unat (plan_x_section p) \<le> unat (plan_x_tiles p)"
    and "unat (plan_y_sectionCount p) * unat (plan_y_section p) \<le> unat (plan_y_tiles p)"
    and "unat (plan_x_sectionSize p) = unat (plan_x_section p) * unat x_factor"
    and "unat (plan_y_sectionSize p) = unat (plan_y_section p) * unat y_factor"
proof -
  note d = planner_InrD [OF pl]
  have sx: "plan_x_section p = shrink_section (x_factor * x_factor) (width div x_factor div plan_workerCount p)"
    using d(6) d(3) by simp
  have sy: "plan_y_section p = shrink_section (y_factor * y_factor) (height div y_factor div plan_workerCount p)"
    using d(7) d(4) by simp
  have zx: "plan_x_section p * x_factor \<noteq> 0" using d(10) d(8) by simp
  have zy: "plan_y_section p * y_factor \<noteq> 0" using d(11) d(9) by simp
  note gx = axis_geometry [OF d(1) sx zx] and gy = axis_geometry [OF d(2) sy zy]
  show "unat (plan_x_sectionCount p) * unat (plan_x_sectionSize p) \<le> unat width"
    using gx(2) by (simp add: d(12) d(8))
  show "unat (plan_y_sectionCount p) * unat (plan_y_sectionSize p) \<le> unat height"
    using gy(2) by (simp add: d(13) d(9))
  show "unat (plan_x_sectionCount p) * unat (plan_x_section p) \<le> unat (plan_x_tiles p)"
    using gx(3) by (simp add: d(12) d(8) d(3))
  show "unat (plan_y_sectionCount p) * unat (plan_y_section p) \<le> unat (plan_y_tiles p)"
    using gy(3) by (simp add: d(13) d(9) d(4))
  show "unat (plan_x_sectionSize p) = unat (plan_x_section p) * unat x_factor"
    using gx(1) by (simp add: d(8))
  show "unat (plan_y_sectionSize p) = unat (plan_y_section p) * unat y_factor"
    using gy(1) by (simp add: d(9))
qed

lemma task_area_inside:
  assumes pl: "planner width height x_factor y_factor H = Inr p"
    and c: "coords \<in> set (task_coords p)"
    and a: "task_area p coords = (x0, y0, w, h)"
  shows "x0 + w \<le> unat (plan_x_sectionCount p) * unat (plan_x_sectionSize p)"
    and "y0 + h \<le> unat (plan_y_sectionCount p) * unat (plan_y_sectionSize p)"
    and "w = unat (plan_x_sectionSize p)" and "h = unat (plan_y_sectionSize p)"
    and "0 < w" and "0 < h"
proof -
  from c obtain i j where ij: "i < unat (plan_x_sectionCount p)" "j < unat (plan_y_sectionCount p)"
      "coords = (of_nat i, of_nat j)"
    by (rule task_coordsD)
  note g = planner_grid [OF pl]
  have x0: "x0 = i * unat (plan_x_sectionSize p)"
    using a ij(3) unat_index_mult [OF ij(1) g(1) unsigned_less] by (auto simp add: task_area_def)
  have y0: "y0 = j * unat (plan_y_sectionSize p)"
    using a ij(3) unat_index_mult [OF ij(2) g(2) unsigned_less] by (auto simp add: task_area_def)
  show w: "w = unat (plan_x_sectionSize p)" and h: "h = unat (plan_y_sectionSize p)"
    using a by (auto simp add: task_area_def)
  have "Suc i * unat (plan_x_sectionSize p) \<le> unat (plan_x_sectionCount p) * unat (plan_x_sectionSize p)"
    using ij(1) by (intro mult_le_mono1) simp
  then show "x0 + w \<le> unat (plan_x_sectionCount p) * unat (plan_x_sectionSize p)"
    by (simp add: x0 w)
  have "Suc j * unat (plan_y_sectionSize p) \<le> unat (plan_y_sectionCount p) * unat (plan_y_sectionSize p)"
    using ij(2) by (intro mult_le_mono1) simp
  then show "y0 + h \<le> unat (plan_y_sectionCount p) * unat (plan_y_sectionSize p)"
    by (simp add: y0 h)
  show "0 < w" "0 < h"
    using planner_InrD(10,11) [OF pl] by (simp_all add: w h unat_gt_0)
qed

section \<open>Properties of the program\<close>

lemma planner_H:
  assumes "worker_count H (width div x_factor) (height div y_factor)
         = worker_count H' (width div x_factor) (height div y_factor)"
  shows "planner width height x_factor y_factor H = planner width height x_factor y_factor H'"
  using assms by (simp add: planner_def udiv_def and_then_def)

lemma scale_H:
  assumes "worker_count H (of_nat (img_width img) div x_factor) (of_nat (img_height img) div y_factor)
         = worker_count H' (of_nat (img_width img) div x_factor) (of_nat (img_height img) div y_factor)"
  shows "scale x_factor y_factor H img = scale x_factor y_factor H' img"
  unfolding scale_def planner_H [OF assms] ..

lemma cut_workers_0: "cut_workers xt yt 0 = Some 0"
  by (subst cut_workers.simps) simp

lemma worker_count_2_2: "worker_count H 2 2 = Inr 1 \<or> worker_count H 2 2 = Inr 2"
proof -
  from cut_workers_returns [OF make_even_even, of 2 2 H] obtain r
    where r: "cut_workers 2 2 (make_even H) = Some r" "even r" "r \<le> 2" by blast
  from r(3) have "unat r \<le> 2" by (simp add: word_le_nat_alt)
  moreover from r(2) have "even (unat r)" by (simp add: even_unat)
  ultimately have "unat r = 0 \<or> unat r = 2" by presburger
  then have "r = 0 \<or> r = 2" by (simp add: word_unat_eq_iff)
  with r(1) show ?thesis by (auto simp: worker_count_def)
qed

text \<open>
  C5. The 4 by 4 image of the scenario, reduced with both factors 2, gives the pixels
  1, 2, 3, 4 of a 2 by 2 image: by \<open>work\<close> on the whole image, and by the scaling path
  of \<open>main\<close> for every number \<open>H\<close> of hardware threads. The pixel of tile \<open>(x, y)\<close> is
  written at index \<open>(y * x_tiles + x) * bandCount\<close>, shown for each of the four tiles on
  a buffer filled with 9.
\<close>

theorem scenario_4x4:
  "work 2 2 1 scenario_image (replicate 4 0) = Inr [1, 2, 3, 4]
   \<and> work_tile 2 2 1 scenario_image 2 0 0 [9, 9, 9, 9] = Inr [1, 9, 9, 9]
   \<and> work_tile 2 2 1 scenario_image 2 1 0 [9, 9, 9, 9] = Inr [9, 2, 9, 9]
   \<and> work_tile 2 2 1 scenario_image 2 0 1 [9, 9, 9, 9] = Inr [9, 9, 3, 9]
   \<and> work_tile 2 2 1 scenario_image 2 1 1 [9, 9, 9, 9] = Inr [9, 9, 9, 4]
   \<and> (\<forall>H. scale 2 2 H scenario_image
          = Inr \<lparr> img_width = 2, img_height = 2, img_bands = 1, img_data = [1, 2, 3, 4] \<rparr>)"
proof -
  have w: "work 2 2 1 scenario_image (replicate 4 0) = Inr [1, 2, 3, 4]"
    by code_simp
  have t: "work_tile 2 2 1 scenario_image 2 0 0 [9, 9, 9, 9] = Inr [1, 9, 9, 9]"
      "work_tile 2 2 1 scenario_image 2 1 0 [9, 9, 9, 9] = Inr [9, 2, 9, 9]"
      "work_tile 2 2 1 scenario_image 2 0 1 [9, 9, 9, 9] = Inr [9, 9, 3, 9]"
      "work_tile 2 2 1 scenario_image 2 1 1 [9, 9, 9, 9] = Inr [9, 9, 9, 4]"
    by code_simp+
  have one: "worker_count 0 (2 :: u32) 2 = Inr 1" and two: "worker_count 2 (2 :: u32) 2 = Inr 2"
    by code_simp+
  have s0: "scale 2 2 0 scenario_image
      = Inr \<lparr> img_width = 2, img_height = 2, img_bands = 1, img_data = [1, 2, 3, 4] \<rparr>"
    by code_simp
  have s2: "scale 2 2 2 scenario_image
      = Inr \<lparr> img_width = 2, img_height = 2, img_bands = 1, img_data = [1, 2, 3, 4] \<rparr>"
    by code_simp
  have d: "(of_nat (img_width scenario_image) :: u32) div 2 = 2"
      "(of_nat (img_height scenario_image) :: u32) div 2 = 2"
    by (simp_all add: scenario_image_def)
  have "scale 2 2 H scenario_image
      = Inr \<lparr> img_width = 2, img_height = 2, img_bands = 1, img_data = [1, 2, 3, 4] \<rparr>" for H
  proof -
    from worker_count_2_2 [of H] consider "worker_count H 2 2 = worker_count 0 2 2"
      | "worker_count H 2 2 = worker_count 2 2 2"
      using one two by auto
    then show ?thesis
    proof cases
      case 1
      then have "scale 2 2 H scenario_image = scale 2 2 0 scenario_image"
        by (intro scale_H) (simp add: d)
      with s0 show ?thesis by simp
    next
      case 2
      then have "scale 2 2 H scenario_image = scale 2 2 2 scenario_image"
        by (intro scale_H) (simp add: d)
      with s2 show ?thesis by simp
    qed
  qed
  with w t show ?thesis by blast
qed


subsection \<open>The scaling path returns an image\<close>

lemma for_each_returns:
  assumes "\<And>x s. x \<in> set xs \<Longrightarrow> \<exists>s'. f x s = Inr s'"
  shows "\<exists>s'. for_each f xs s = Inr s'"
  using assms
proof (induction xs arbitrary: s)
  case Nil
  then show ?case by simp
next
  case (Cons x xs)
  from Cons.prems [of x s] obtain s1 where s1: "f x s = Inr s1"
    by auto
  have "\<exists>s'. for_each f xs s1 = Inr s'"
    using Cons.prems by (intro Cons.IH) auto
  with s1 show ?case by (simp add: and_then_def)
qed

lemma extract_area_returns:
  assumes "0 < w" and "0 < h" and "x0 + w \<le> img_width img" and "y0 + h \<le> img_height img"
  shows "\<exists>area. extract_area img x0 y0 w h = Inr area \<and> img_width area = w \<and> img_height area = h"
  using assms by (simp add: extract_area_def)

lemma tile_inside:
  fixes x factor extent :: nat
  assumes "x < extent div factor"
  shows "x * factor + factor \<le> extent"
proof -
  have "Suc x * factor \<le> extent div factor * factor"
    using assms by (intro mult_le_mono1) simp
  also have "\<dots> \<le> extent"
    by (rule div_times_less_eq_dividend)
  finally show ?thesis by simp
qed

lemma work_tile_returns:
  assumes "0 < x_factor" and "0 < y_factor"
    and "x < img_width img div x_factor" and "y < img_height img div y_factor"
  shows "\<exists>out'. work_tile x_factor y_factor bc img xt x y out = Inr out'"
proof -
  from extract_area_returns [OF assms(1,2) tile_inside [OF assms(3)] tile_inside [OF assms(4)]]
  obtain area where "extract_area img (x * x_factor) (y * y_factor) x_factor y_factor = Inr area"
    by blast
  then show ?thesis
    by (simp add: work_tile_def and_then_def)
qed

lemma work_returns:
  assumes "0 < x_factor" and "0 < y_factor"
  shows "\<exists>out'. work x_factor y_factor bc img out = Inr out'"
proof -
  let ?xt = "img_width img div x_factor" and ?yt = "img_height img div y_factor"
  have col: "\<exists>s'. for_each (work_tile x_factor y_factor bc img ?xt x) [0..<?yt] s = Inr s'"
    if "x \<in> set [0..<?xt]" for x s
  proof (rule for_each_returns)
    fix y s1 assume "y \<in> set [0..<?yt]"
    with that show "\<exists>s'. work_tile x_factor y_factor bc img ?xt x y s1 = Inr s'"
      by (intro work_tile_returns [OF assms]) simp_all
  qed
  have "\<exists>s'. for_each (\<lambda>x. for_each (work_tile x_factor y_factor bc img ?xt x) [0..<?yt])
      [0..<?xt] out = Inr s'"
    using col by (rule for_each_returns)
  with assms show ?thesis by (simp add: work_def Let_def)
qed

lemma unat_of_nat_le: "unat (of_nat n :: u32) \<le> n"
  by (simp add: unat_of_nat)

lemma create_tasks_returns:
  assumes pl: "planner (of_nat (img_width img)) (of_nat (img_height img)) x_factor y_factor H = Inr p"
  shows "\<exists>tasks. create_tasks img p = Inr tasks"
proof -
  note g = planner_grid [OF pl]
  show ?thesis
    unfolding create_tasks_def
  proof (rule for_each_returns)
    fix coords and tasks :: "((u32 \<times> u32) \<times> image) list"
    assume c: "coords \<in> set (task_coords p)"
    obtain x0 y0 w h where a: "task_area p coords = (x0, y0, w, h)"
      by (cases "task_area p coords") auto
    note t = task_area_inside [OF pl c a]
    have "x0 + w \<le> img_width img"
      using t(1) g(1) unat_of_nat_le [of "img_width img"] by linarith
    moreover have "y0 + h \<le> img_height img"
      using t(2) g(2) unat_of_nat_le [of "img_height img"] by linarith
    ultimately obtain area where "extract_area img x0 y0 w h = Inr area"
      using extract_area_returns [OF t(5,6)] by blast
    then show "\<exists>s'. (case task_area p coords of (x0, y0, w, h) \<Rightarrow>
        and_then (extract_area img x0 y0 w h) (\<lambda>area. Inr (tasks @ [(coords, area)]))) = Inr s'"
      by (simp add: a and_then_def)
  qed
qed

lemma run_tasks_returns:
  assumes "x_factor \<noteq> 0" and "y_factor \<noteq> 0"
  shows "\<exists>result. run_tasks x_factor y_factor bc p tasks = Inr result"
proof -
  have pos: "0 < unat x_factor" "0 < unat y_factor"
    using assms by (simp_all add: unat_gt_0)
  show ?thesis
    unfolding run_tasks_def
  proof (rule for_each_returns)
    fix task :: "(u32 \<times> u32) \<times> image" and result :: "((u32 \<times> u32) \<times> u8 list) list"
    from work_returns [OF pos] obtain buffer
      where "work (unat x_factor) (unat y_factor) bc (snd task)
          (replicate (unat (plan_x_section p * plan_y_section p * of_nat bc)) 0) = Inr buffer"
      by blast
    then show "\<exists>s'. and_then (work (unat x_factor) (unat y_factor) bc (snd task)
          (replicate (unat (plan_x_section p * plan_y_section p * of_nat bc)) 0))
        (\<lambda>buffer. Inr (result @ [(fst task, buffer)])) = Inr s'"
      by (simp add: and_then_def)
  qed
qed

lemma img_size_insert_image:
  "img_width (insert_image a sub x y) = img_width a"
  "img_height (insert_image a sub x y) = img_height a"
  by (simp_all add: insert_image_def)

lemma img_size_fold_insert:
  "img_width (fold (\<lambda>r out. insert_image out (sub r) (x r) (y r)) rs a) = img_width a
   \<and> img_height (fold (\<lambda>r out. insert_image out (sub r) (x r) (y r)) rs a) = img_height a"
  by (induction rs arbitrary: a) (simp_all add: img_size_insert_image)

lemma img_size_assemble:
  "img_width (assemble bc p result) = unat (plan_x_tiles p)"
  "img_height (assemble bc p result) = unat (plan_y_tiles p)"
  unfolding assemble_def by (simp_all add: img_size_fold_insert)

lemma scale_returns:
  assumes pl: "planner (of_nat (img_width img)) (of_nat (img_height img)) x_factor y_factor H = Inr p"
  shows "\<exists>out. scale x_factor y_factor H img = Inr out
           \<and> img_width out = unat (plan_x_tiles p) \<and> img_height out = unat (plan_y_tiles p)"
proof -
  from create_tasks_returns [OF pl] obtain tasks where t: "create_tasks img p = Inr tasks" ..
  from run_tasks_returns [OF planner_InrD(1,2) [OF pl]] obtain result
    where r: "run_tasks x_factor y_factor (img_bands img) p tasks = Inr result" ..
  have "scale x_factor y_factor H img = Inr (assemble (img_bands img) p result)"
    by (simp add: scale_def pl t r and_then_def)
  then show ?thesis by (simp add: img_size_assemble)
qed

text \<open>
  C2. The claim is that only pixels inside the section grid are processed, and that the
  output image is as wide as the sections cover (\<open>x_sectionCount * x_section\<close>) rather
  than \<open>x_tiles\<close> wide where the two differ. The first part holds. The second does not:
  the output image is created with \<open>x_tiles \<times> y_tiles\<close> pixels (lines 353 to 357) and an
  insertion does not change its size. For the strip of 10 by 1 pixels and the factors
  2 and 1 the sections cover 4 of the 5 tiles, and the output is 5 pixels wide, its last
  pixel being the 0 of the fresh buffer.
\<close>

theorem output_width_is_tile_count:
  "planner (of_nat (img_width strip_image)) (of_nat (img_height strip_image)) 2 1 4
     = Inr strip_plan
   \<and> scale 2 1 4 strip_image = Inr strip_output
   \<and> plan_x_sectionCount strip_plan * plan_x_section strip_plan \<noteq> plan_x_tiles strip_plan
   \<and> img_width strip_output = unat (plan_x_tiles strip_plan)
   \<and> img_width strip_output \<noteq> unat (plan_x_sectionCount strip_plan * plan_x_section strip_plan)
   \<and> img_data strip_output = [1, 2, 3, 4, 0]"
  by code_simp

text \<open>
  C2, amended. Whenever the planner returns a plan: every area handed to a task lies
  inside the section grid, the grid lies inside the image, the scaling path returns an
  output image, that image is \<open>x_tiles\<close> wide and \<open>y_tiles\<close> high, and the columns and
  rows that the sections cover, \<open>x_sectionCount * x_section\<close> and
  \<open>y_sectionCount * y_section\<close>, are at most \<open>x_tiles\<close> and \<open>y_tiles\<close>.
\<close>

theorem section_grid_and_output_size:
  assumes "planner (of_nat (img_width img)) (of_nat (img_height img)) x_factor y_factor H = Inr p"
  shows "(\<forall>coords\<in>set (task_coords p).
            fst (task_area p coords) + fst (snd (snd (task_area p coords)))
              \<le> unat (plan_x_sectionCount p) * unat (plan_x_sectionSize p)
          \<and> fst (snd (task_area p coords)) + snd (snd (snd (task_area p coords)))
              \<le> unat (plan_y_sectionCount p) * unat (plan_y_sectionSize p))
       \<and> unat (plan_x_sectionCount p) * unat (plan_x_sectionSize p) \<le> img_width img
       \<and> unat (plan_y_sectionCount p) * unat (plan_y_sectionSize p) \<le> img_height img
       \<and> (\<exists>out. scale x_factor y_factor H img = Inr out
             \<and> img_width out = unat (plan_x_tiles p) \<and> img_height out = unat (plan_y_tiles p))
       \<and> unat (plan_x_sectionCount p) * unat (plan_x_section p) \<le> unat (plan_x_tiles p)
       \<and> unat (plan_y_sectionCount p) * unat (plan_y_section p) \<le> unat (plan_y_tiles p)"
proof -
  note g = planner_grid [OF assms]
  have inside: "fst (task_area p coords) + fst (snd (snd (task_area p coords)))
              \<le> unat (plan_x_sectionCount p) * unat (plan_x_sectionSize p)
          \<and> fst (snd (task_area p coords)) + snd (snd (snd (task_area p coords)))
              \<le> unat (plan_y_sectionCount p) * unat (plan_y_sectionSize p)"
    if "coords \<in> set (task_coords p)" for coords
  proof -
    obtain x0 y0 w h where a: "task_area p coords = (x0, y0, w, h)"
      by (cases "task_area p coords") auto
    from task_area_inside(1,2) [OF assms that a] show ?thesis by (simp add: a)
  qed
  have wx: "unat (plan_x_sectionCount p) * unat (plan_x_sectionSize p) \<le> img_width img"
    using g(1) unat_of_nat_le [of "img_width img"] by linarith
  have wy: "unat (plan_y_sectionCount p) * unat (plan_y_sectionSize p) \<le> img_height img"
    using g(2) unat_of_nat_le [of "img_height img"] by linarith
  show ?thesis
    by (intro conjI ballI inside [THEN conjunct1] inside [THEN conjunct2] wx wy
        scale_returns [OF assms] g(3) g(4))
qed

theorem section_grid_and_output_size_witness:
  "planner (of_nat (img_width strip_image)) (of_nat (img_height strip_image)) 2 1 4
     = Inr strip_plan
   \<and> (1, 0) \<in> set (task_coords strip_plan)
   \<and> task_area strip_plan (1, 0) = (4, 0, 4, 1)
   \<and> fst (task_area strip_plan (1, 0)) + fst (snd (snd (task_area strip_plan (1, 0))))
        \<le> unat (plan_x_sectionCount strip_plan) * unat (plan_x_sectionSize strip_plan)
   \<and> (\<exists>out. scale 2 1 4 strip_image = Inr out
         \<and> img_width out = unat (plan_x_tiles strip_plan)
         \<and> img_height out = unat (plan_y_tiles strip_plan))
   \<and> unat (plan_x_sectionCount strip_plan) * unat (plan_x_sectionSize strip_plan)
        \<le> img_width strip_image
   \<and> unat (plan_x_sectionCount strip_plan) * unat (plan_x_section strip_plan)
        \<le> unat (plan_x_tiles strip_plan)"
proof -
  have pl: "planner (of_nat (img_width strip_image)) (of_nat (img_height strip_image)) 2 1 4
     = Inr strip_plan"
    by code_simp
  have c: "(1, 0) \<in> set (task_coords strip_plan)"
    by code_simp
  have a: "task_area strip_plan (1, 0) = (4, 0, 4, 1)"
    by code_simp
  from section_grid_and_output_size [OF pl] pl c a show ?thesis
    by blast
qed

subsection \<open>Exit codes\<close>

text \<open>
  C8. The claim is that with both factors 1, the arguments accepted and the image
  opened, the program writes the image unchanged and exits with 0. That leaves out the
  save: \<open>img.pngsave\<close> at line 240 can throw, nothing catches it, and the program is
  then stopped without an exit code of 0 and without an output image.
\<close>

theorem identity_factors_save_fails:
  "main False (\<lambda>s. if s = ''1'' then 1 else 0) (\<lambda>s. Some scenario_image) (\<lambda>path out. False) 4
      [''aniniscale'', ''1'', ''1'', ''in.png'', ''out.png'']
     = (Abort VipsError, [Opened ''in.png''])
   \<and> fst (main False (\<lambda>s. if s = ''1'' then 1 else 0) (\<lambda>s. Some scenario_image)
          (\<lambda>path out. False) 4 [''aniniscale'', ''1'', ''1'', ''in.png'', ''out.png''])
       \<noteq> Return 0"
  by (simp add: main_def word_sless_alt)

text \<open>
  C8, amended. With both factors 1 (the library initialised, at least four arguments,
  the image opened) and a save that succeeds, \<open>main\<close> returns 0 and the only things it
  has done are to open the image and to save that same image: the planner and the
  reducer are not run. When the save fails, the program is stopped by the failure of
  the image library and has saved nothing.
\<close>

theorem identity_factors:
  assumes "\<not> vips_init_failed" and "5 \<le> length argv"
    and "atoi (argv ! 1) = 1" and "atoi (argv ! 2) = 1"
    and "new_from_file (argv ! 3) = Some img"
  shows "(pngsave (argv ! 4) img \<longrightarrow>
            main vips_init_failed atoi new_from_file pngsave H argv
              = (Return 0, [Opened (argv ! 3), Saved (argv ! 4) img]))
       \<and> (\<not> pngsave (argv ! 4) img \<longrightarrow>
            main vips_init_failed atoi new_from_file pngsave H argv
              = (Abort VipsError, [Opened (argv ! 3)]))"
  using assms by (simp add: main_def Let_def word_sless_alt)

theorem identity_factors_witness:
  "\<not> False \<and> 5 \<le> length [''aniniscale'', ''1'', ''1'', ''in.png'', ''out.png'']
   \<and> (\<lambda>s. if s = ''1'' then 1 else 0) ([''aniniscale'', ''1'', ''1'', ''in.png'', ''out.png''] ! 1)
        = (1 :: u32)
   \<and> (\<lambda>path out. path = ''out.png'') ([''aniniscale'', ''1'', ''1'', ''in.png'', ''out.png''] ! 4)
        scenario_image
   \<and> main False (\<lambda>s. if s = ''1'' then 1 else 0) (\<lambda>s. Some scenario_image)
        (\<lambda>path out. path = ''out.png'') 4
        [''aniniscale'', ''1'', ''1'', ''in.png'', ''out.png'']
       = (Return 0, [Opened ''in.png'', Saved ''out.png'' scenario_image])
   \<and> main False (\<lambda>s. if s = ''1'' then 1 else 0) (\<lambda>s. Some scenario_image)
        (\<lambda>path out. path = ''out.png'') 4
        [''aniniscale'', ''1'', ''1'', ''in.png'', ''elsewhere.png'']
       = (Abort VipsError, [Opened ''in.png''])"
proof -
  note ok = identity_factors [where vips_init_failed = False
      and argv = "[''aniniscale'', ''1'', ''1'', ''in.png'', ''out.png'']"
      and atoi = "\<lambda>s. if s = ''1'' then 1 else 0" and new_from_file = "\<lambda>s. Some scenario_image"
      and img = scenario_image and pngsave = "\<lambda>path out. path = ''out.png''" and H = 4]
  note bad = identity_factors [where vips_init_failed = False
      and argv = "[''aniniscale'', ''1'', ''1'', ''in.png'', ''elsewhere.png'']"
      and atoi = "\<lambda>s. if s = ''1'' then 1 else 0" and new_from_file = "\<lambda>s. Some scenario_image"
      and img = scenario_image and pngsave = "\<lambda>path out. path = ''out.png''" and H = 4]
  from ok have "main False (\<lambda>s. if s = ''1'' then 1 else 0) (\<lambda>s. Some scenario_image)
        (\<lambda>path out. path = ''out.png'') 4
        [''aniniscale'', ''1'', ''1'', ''in.png'', ''out.png'']
       = (Return 0, [Opened ''in.png'', Saved ''out.png'' scenario_image])"
    by simp
  moreover from bad have "main False (\<lambda>s. if s = ''1'' then 1 else 0) (\<lambda>s. Some scenario_image)
        (\<lambda>path out. path = ''out.png'') 4
        [''aniniscale'', ''1'', ''1'', ''in.png'', ''elsewhere.png'']
       = (Abort VipsError, [Opened ''in.png''])"
    by simp
  ultimately show ?thesis by simp
qed

text \<open>
  C9. \<open>main\<close> returns -1 exactly when the initialisation of the image library fails,
  fewer than four arguments follow the program name, or a factor is below 1; and when
  it returns -1 it has neither opened nor saved an image.
\<close>

theorem exit_code_minus_one:
  "(fst (main vips_init_failed atoi new_from_file pngsave H argv) = Return (- 1)
      \<longleftrightarrow> vips_init_failed \<or> length argv < 5
          \<or> atoi (argv ! 1) <s 1 \<or> atoi (argv ! 2) <s 1)
   \<and> (fst (main vips_init_failed atoi new_from_file pngsave H argv) = Return (- 1)
      \<longrightarrow> snd (main vips_init_failed atoi new_from_file pngsave H argv) = [])"
  by (auto simp add: main_def Let_def split: option.splits sum.splits)

theorem exit_code_minus_one_witness:
  "(\<lambda>s. if s = ''0'' then 0 else 2) ([''aniniscale'', ''0'', ''2'', ''in.png'', ''out.png''] ! 1) <s (1 :: u32)
   \<and> fst (main False (\<lambda>s. if s = ''0'' then 0 else 2) (\<lambda>s. Some scenario_image) (\<lambda>path out. True) 4
        [''aniniscale'', ''0'', ''2'', ''in.png'', ''out.png'']) = Return (- 1)
   \<and> snd (main False (\<lambda>s. if s = ''0'' then 0 else 2) (\<lambda>s. Some scenario_image) (\<lambda>path out. True) 4
        [''aniniscale'', ''0'', ''2'', ''in.png'', ''out.png'']) = []
   \<and> fst (main False (\<lambda>s. if s = ''0'' then 0 else 2) (\<lambda>s. Some scenario_image) (\<lambda>path out. True) 4
        [''aniniscale'', ''2'', ''2'', ''in.png'', ''out.png'']) \<noteq> Return (- 1)"
proof -
  have a: "(\<lambda>s. if s = ''0'' then 0 else 2) ([''aniniscale'', ''0'', ''2'', ''in.png'', ''out.png''] ! 1) <s (1 :: u32)"
    by (simp add: word_sless_alt)
  have b: "\<not> ((\<lambda>s. if s = ''0'' then 0 else 2) ([''aniniscale'', ''2'', ''2'', ''in.png'', ''out.png''] ! 1) <s (1 :: u32))"
      "\<not> ((\<lambda>s. if s = ''0'' then 0 else 2) ([''aniniscale'', ''2'', ''2'', ''in.png'', ''out.png''] ! 2) <s (1 :: u32))"
    by (simp_all add: word_sless_alt)
  note t1 = exit_code_minus_one [of False "\<lambda>s. if s = ''0'' then 0 else 2" "\<lambda>s. Some scenario_image"
      "\<lambda>path out. True" 4
      "[''aniniscale'', ''0'', ''2'', ''in.png'', ''out.png'']"]
  note t2 = exit_code_minus_one [of False "\<lambda>s. if s = ''0'' then 0 else 2" "\<lambda>s. Some scenario_image"
      "\<lambda>path out. True" 4
      "[''aniniscale'', ''2'', ''2'', ''in.png'', ''out.png'']"]
  from t1 a have "fst (main False (\<lambda>s. if s = ''0'' then 0 else 2) (\<lambda>s. Some scenario_image) (\<lambda>path out. True) 4
        [''aniniscale'', ''0'', ''2'', ''in.png'', ''out.png'']) = Return (- 1)
     \<and> snd (main False (\<lambda>s. if s = ''0'' then 0 else 2) (\<lambda>s. Some scenario_image) (\<lambda>path out. True) 4
        [''aniniscale'', ''0'', ''2'', ''in.png'', ''out.png'']) = []"
    by blast
  moreover from t2 b have "fst (main False (\<lambda>s. if s = ''0'' then 0 else 2) (\<lambda>s. Some scenario_image) (\<lambda>path out. True) 4
        [''aniniscale'', ''2'', ''2'', ''in.png'', ''out.png'']) \<noteq> Return (- 1)"
    by simp
  ultimately show ?thesis using a by blast
qed

end
